theory Spec2Isabelle
  imports Main "HOL-Library.Stream" "HOL-Library.Sublist"
begin

section \<open>Contrastive text encoder utilities: span sampling and cross-replica gathering\<close>

text \<open>
  The development embeds \<^verbatim>\<open>src/t2t/models/contrastive_text_encoder_util.py\<close>:
  \<^verbatim>\<open>get_world_size\<close>, \<^verbatim>\<open>sample_anchor_positive_pairs\<close> and
  \<^verbatim>\<open>all_gather_anchor_positive_pairs\<close>. The three functions are written over an explicit
  program state (random source, tensor storages, object counter, autograd mode) and return
  either a Python exception or a value, together with the state reached; the sampler, whose
  draw of two indices may redraw without end, may also not return. The library functions
  they call (\<^verbatim>\<open>torch\<close>, \<^verbatim>\<open>random\<close>, \<^verbatim>\<open>torch.distributed\<close>) are modelled by their behaviour on
  the arguments the source passes; devices, element types and the blocking of the
  collective are not modelled.
\<close>

subsection \<open>Exceptions and stateful computations\<close>

datatype error = KeyError | IndexError | ValueError | AssertionError | RuntimeError

type_synonym ('s, 'v) prog = "'s \<Rightarrow> (error + 'v) \<times> 's"

definition ret :: "'v \<Rightarrow> ('s, 'v) prog" where
  "ret v s = (Inr v, s)"

definition throw :: "error \<Rightarrow> ('s, 'v) prog" where
  "throw e s = (Inl e, s)"

text \<open>Sequencing: an exception of the first computation ends the run in the state it left.\<close>

definition seq :: "('s, 'v) prog \<Rightarrow> ('v \<Rightarrow> ('s, 'w) prog) \<Rightarrow> ('s, 'w) prog" where
  "seq m k s = (case m s of (Inl e, s') \<Rightarrow> (Inl e, s') | (Inr v, s') \<Rightarrow> k v s')"

text \<open>\<^verbatim>\<open>try: m  except e: h\<close>: only the named exception is handled, any other propagates.\<close>

definition try_except :: "('s, 'v) prog \<Rightarrow> error \<Rightarrow> ('s, 'v) prog \<Rightarrow> ('s, 'v) prog" where
  "try_except m e h s =
     (case m s of
        (Inl e', s') \<Rightarrow> if e' = e then h s' else (Inl e', s')
      | (Inr v, s') \<Rightarrow> (Inr v, s'))"

text \<open>A list comprehension or loop whose body has effects: the bodies run left to right.\<close>

fun map_prog :: "('x \<Rightarrow> ('s, 'v) prog) \<Rightarrow> 'x list \<Rightarrow> ('s, 'v list) prog" where
  "map_prog f [] = ret []"
| "map_prog f (x # xs) = seq (f x) (\<lambda>v. seq (map_prog f xs) (\<lambda>vs. ret (v # vs)))"

text \<open>
  A computation that may not return (a loop that need not end): \<open>None\<close> stands for a run
  that does not end. A computation that always returns is one of these, and sequencing is
  as before.
\<close>

type_synonym ('s, 'v) partial_prog = "'s \<Rightarrow> ((error + 'v) \<times> 's) option"

definition returning :: "('s, 'v) prog \<Rightarrow> ('s, 'v) partial_prog" where
  "returning m s = Some (m s)"

definition seq_partial ::
  "('s, 'v) partial_prog \<Rightarrow> ('v \<Rightarrow> ('s, 'w) partial_prog) \<Rightarrow> ('s, 'w) partial_prog" where
  "seq_partial m k s =
     (case m s of
        None \<Rightarrow> None
      | Some (Inl e, s') \<Rightarrow> Some (Inl e, s')
      | Some (Inr v, s') \<Rightarrow> k v s')"

subsection \<open>Tensors, storages and the program state\<close>

text \<open>
  Gradient history of a tensor: none (\<^verbatim>\<open>requires_grad = False\<close>), a history that
  existed before the call (the encoder's graph, named by a number), or a node recorded by
  an operation of this file over the histories of its inputs.
\<close>

datatype history = NoHist | Prior nat | Fn string "history list"

text \<open>
  A tensor object is a view of a storage: \<open>obj_id\<close> is the identity of the Python object,
  \<open>stor\<close> the address of the storage it reads, \<open>cells\<close> the storage positions of its
  elements in row-major order of its \<open>shape\<close> (what offset and strides determine), and
  \<open>hist\<close> its gradient history. Two tensors share memory exactly when they have the same
  \<open>stor\<close> and a common cell.
\<close>

record tensor =
  obj_id :: nat
  stor :: nat
  cells :: "nat list"
  shape :: "nat list"
  hist :: history

text \<open>
  The state: the random source as the stream of raw draws still to come, the storages
  (a storage's address is its index; allocation appends), the next free object identity,
  and whether autograd records operations.
\<close>

record 'a world =
  rng :: "nat stream"
  stors :: "'a list list"
  next_id :: nat
  grad_enabled :: bool

definition read_cells :: "'a list list \<Rightarrow> tensor \<Rightarrow> 'a list" where
  "read_cells st t = map (\<lambda>p. st ! stor t ! p) (cells t)"

definition tensor_data :: "'a world \<Rightarrow> tensor \<Rightarrow> 'a list" where
  "tensor_data s t = read_cells (stors s) t"

definition numel :: "tensor \<Rightarrow> nat" where
  "numel t = prod_list (shape t)"

definition valid_tensor :: "'a world \<Rightarrow> tensor \<Rightarrow> bool" where
  "valid_tensor s t \<longleftrightarrow>
     stor t < length (stors s) \<and> length (cells t) = numel t \<and>
     (\<forall>p \<in> set (cells t). p < length (stors s ! stor t))"

definition grad_of :: "'a world \<Rightarrow> string \<Rightarrow> tensor list \<Rightarrow> history" where
  "grad_of s name ts =
     (if grad_enabled s \<and> (\<exists>t \<in> set ts. hist t \<noteq> NoHist) then Fn name (map hist ts) else NoHist)"

text \<open>A new tensor object on a new storage holding \<open>xs\<close>, and a new object viewing an existing storage.\<close>

definition new_tensor :: "'a list \<Rightarrow> nat list \<Rightarrow> history \<Rightarrow> ('a world, tensor) prog" where
  "new_tensor xs sh hs s =
     (Inr \<lparr>obj_id = next_id s, stor = length (stors s), cells = [0..<length xs], shape = sh, hist = hs\<rparr>,
      s\<lparr>stors := stors s @ [xs], next_id := Suc (next_id s)\<rparr>)"

definition new_view :: "tensor \<Rightarrow> nat list \<Rightarrow> nat list \<Rightarrow> history \<Rightarrow> ('a world, tensor) prog" where
  "new_view t cs sh hs s =
     (Inr \<lparr>obj_id = next_id s, stor = stor t, cells = cs, shape = sh, hist = hs\<rparr>,
      s\<lparr>next_id := Suc (next_id s)\<rparr>)"

subsection \<open>The tensor operations the source calls\<close>

text \<open>\<^verbatim>\<open>t.size(d)\<close>: the extent of dimension \<open>d\<close>; IndexError when the tensor has no such dimension.\<close>

definition tensor_size :: "tensor \<Rightarrow> nat \<Rightarrow> ('s, nat) prog" where
  "tensor_size t d = (if d < length (shape t) then ret (shape t ! d) else throw IndexError)"

text \<open>
  Selection along one dimension of a row-major list: the list is \<open>B\<close> outer blocks of
  \<open>S\<close> slices of \<open>R\<close> elements; for every outer block, in order, the slices named by
  \<open>idx\<close> are taken, in the order of \<open>idx\<close>.
\<close>

definition gather :: "nat \<Rightarrow> nat \<Rightarrow> nat \<Rightarrow> nat list \<Rightarrow> 'a list \<Rightarrow> 'a list" where
  "gather B S R idx xs =
     concat (map (\<lambda>b. concat (map (\<lambda>i. take R (drop ((b * S + i) * R) xs)) idx)) [0..<B])"

definition outer :: "tensor \<Rightarrow> nat \<Rightarrow> nat" where
  "outer t d = prod_list (take d (shape t))"

definition inner :: "tensor \<Rightarrow> nat \<Rightarrow> nat" where
  "inner t d = prod_list (drop (Suc d) (shape t))"

text \<open>
  \<^verbatim>\<open>torch.index_select(t, dim=d, index=idx)\<close>: a new tensor on its own storage. A missing
  dimension is an IndexError, and so is an index outside the dimension. The index tensor
  is given by its contents.
\<close>

definition index_select :: "tensor \<Rightarrow> nat \<Rightarrow> nat list \<Rightarrow> ('a world, tensor) prog" where
  "index_select t d idx s =
     (if length (shape t) \<le> d then throw IndexError s
      else if \<exists>i \<in> set idx. shape t ! d \<le> i then throw IndexError s
      else new_tensor (gather (outer t d) (shape t ! d) (inner t d) idx (tensor_data s t))
             ((shape t)[d := length idx]) (grad_of s ''IndexSelectBackward'' [t]) s)"

text \<open>\<^verbatim>\<open>t.narrow(d, start, len)\<close>: a view of the same storage, \<open>len\<close> slices wide from \<open>start\<close>.\<close>

definition narrow :: "tensor \<Rightarrow> nat \<Rightarrow> nat \<Rightarrow> nat \<Rightarrow> ('a world, tensor) prog" where
  "narrow t d start len s =
     new_view t (gather (outer t d) (shape t ! d) (inner t d) [start..<start + len] (cells t))
       ((shape t)[d := len]) (grad_of s ''SplitBackward'' [t]) s"

text \<open>
  \<^verbatim>\<open>torch.chunk(t, n, dim=d)\<close>: views of \<open>t\<close>, each \<open>\<lceil>S / n\<rceil>\<close> slices wide (the last one
  may be narrower), as many as are needed to cover the \<open>S\<close> slices; \<open>n\<close> empty views when
  the dimension is empty.
\<close>

definition chunk :: "tensor \<Rightarrow> nat \<Rightarrow> nat \<Rightarrow> ('a world, tensor list) prog" where
  "chunk t n d =
     (if length (shape t) \<le> d then throw IndexError
      else if n = 0 then throw RuntimeError
      else let S = shape t ! d; w = (S + n - 1) div n in
        if w = 0 then map_prog (\<lambda>k. narrow t d 0 0) [0..<n]
        else map_prog (\<lambda>k. narrow t d (k * w) (min w (S - k * w))) [0..<(S + w - 1) div w])"

text \<open>\<^verbatim>\<open>a, b = xs\<close>: unpacking into two names needs exactly two values.\<close>

definition unpack2 :: "'v list \<Rightarrow> ('s, 'v \<times> 'v) prog" where
  "unpack2 xs = (case xs of [a, b] \<Rightarrow> ret (a, b) | _ \<Rightarrow> throw ValueError)"

text \<open>\<^verbatim>\<open>t.squeeze(d)\<close>: a view without dimension \<open>d\<close> when its extent is 1, of the same shape otherwise.\<close>

definition squeeze :: "tensor \<Rightarrow> nat \<Rightarrow> ('a world, tensor) prog" where
  "squeeze t d s =
     (if length (shape t) \<le> d then throw IndexError s
      else new_view t (cells t)
             (if shape t ! d = 1 then take d (shape t) @ drop (Suc d) (shape t) else shape t)
             (grad_of s ''SqueezeBackward'' [t]) s)"

text \<open>\<^verbatim>\<open>torch.ones_like(t)\<close>: a new tensor of the shape of \<open>t\<close>, filled with ones, without history.\<close>

definition ones_like :: "tensor \<Rightarrow> ('a::one world, tensor) prog" where
  "ones_like t = new_tensor (replicate (numel t) 1) (shape t) NoHist"

text \<open>
  \<^verbatim>\<open>torch.cat(ts)\<close> along dimension 0: a new tensor holding the data of the tensors one after
  the other. The list must not be empty, no tensor may be zero-dimensional, and the
  shapes must agree beyond dimension 0 (the legacy exemption of empty one-dimensional
  tensors is left out: the source concatenates tensors of one shape).
\<close>

definition cat :: "tensor list \<Rightarrow> ('a world, tensor) prog" where
  "cat ts s =
     (case ts of
        [] \<Rightarrow> throw RuntimeError s
      | t # _ \<Rightarrow>
          if \<exists>u \<in> set ts. shape u = [] then throw RuntimeError s
          else if \<exists>u \<in> set ts. tl (shape u) \<noteq> tl (shape t) then throw RuntimeError s
          else new_tensor (concat (map (tensor_data s) ts))
                 (sum_list (map (\<lambda>u. hd (shape u)) ts) # tl (shape t))
                 (grad_of s ''CatBackward'' ts) s)"

text \<open>
  An in-place write through a tensor (\<^verbatim>\<open>t.copy_(vs)\<close>): the storage cells of \<open>t\<close> receive the
  values, in row-major order; no other cell changes.
\<close>

definition write_cells :: "nat list \<Rightarrow> 'a list \<Rightarrow> 'a list \<Rightarrow> 'a list" where
  "write_cells cs vs st = fold (\<lambda>(p, v) st. st[p := v]) (zip cs vs) st"

definition copy_into :: "tensor \<Rightarrow> 'a list \<Rightarrow> ('a world, unit) prog" where
  "copy_into t vs s =
     (if length vs \<noteq> length (cells t) then throw RuntimeError s
      else ret () (s\<lparr>stors := (stors s)[stor t := write_cells (cells t) vs (stors s ! stor t)]\<rparr>))"

subsection \<open>Python's \<^verbatim>\<open>random.sample\<close> and dictionary lookup\<close>

text \<open>
  \<^verbatim>\<open>random.sample(population, k)\<close> raises ValueError when \<open>k\<close> exceeds the population.
  Otherwise it selects without replacement, in one of two ways. A population of at most
  \<open>setsize k\<close> elements (21 for \<open>k \<le> 5\<close>) is copied to a pool: the \<open>i\<close>-th pick is the
  element at position \<open>randbelow(n - i)\<close> of the pool, and the last live element of the pool
  moves into the vacancy. In a larger population the \<open>i\<close>-th pick is the element at
  position \<open>randbelow(n)\<close>, drawn again for as long as the position is among those picked
  before; this redrawing need not end. \<open>randbelow m\<close> is the next raw draw of the random
  source reduced below \<open>m\<close>.
\<close>

fun sample_pool :: "nat \<Rightarrow> nat \<Rightarrow> 'v list \<Rightarrow> nat stream \<Rightarrow> 'v list \<times> nat stream" where
  "sample_pool 0 m pool g = ([], g)"
| "sample_pool (Suc k) m pool g =
     (let j = shd g mod m;
          (xs, g') = sample_pool k (m - 1) (pool[j := pool ! (m - 1)]) (stl g)
      in (pool ! j # xs, g'))"

text \<open>\<^verbatim>\<open>j = randbelow(n)\<close>, then \<^verbatim>\<open>while j in selected: j = randbelow(n)\<close>.\<close>

partial_function (option) draw_unselected ::
  "nat \<Rightarrow> nat set \<Rightarrow> nat stream \<Rightarrow> (nat \<times> nat stream) option" where
  "draw_unselected n selected g =
     (if shd g mod n \<in> selected then draw_unselected n selected (stl g)
      else Some (shd g mod n, stl g))"

fun sample_set ::
  "nat \<Rightarrow> nat \<Rightarrow> 'v list \<Rightarrow> nat set \<Rightarrow> nat stream \<Rightarrow> ('v list \<times> nat stream) option" where
  "sample_set 0 n population selected g = Some ([], g)"
| "sample_set (Suc k) n population selected g =
     (case draw_unselected n selected g of
        None \<Rightarrow> None
      | Some (j, g') \<Rightarrow>
          (case sample_set k n population (insert j selected) g' of
             None \<Rightarrow> None
           | Some (xs, g'') \<Rightarrow> Some (population ! j # xs, g'')))"

text \<open>
  The largest population that is copied to a pool: 21, and for \<open>k > 5\<close> in addition
  \<open>4\<close> to the power \<open>\<lceil>log\<^sub>4 (3 k)\<rceil>\<close>, the least \<open>e\<close> with \<open>3 k \<le> 4\<^sup>e\<close>.
\<close>

definition setsize :: "nat \<Rightarrow> nat" where
  "setsize k =
     (if 5 < k then 21 + 4 ^ length (takeWhile (\<lambda>e. 4 ^ e < 3 * k) [0..<3 * k]) else 21)"

definition random_sample :: "'v list \<Rightarrow> nat \<Rightarrow> ('a world, 'v list) partial_prog" where
  "random_sample population k s =
     (let n = length population in
      if n < k then Some (throw ValueError s)
      else if n \<le> setsize k then
        (let (xs, g') = sample_pool k n population (rng s) in Some (ret xs (s\<lparr>rng := g'\<rparr>)))
      else
        (case sample_set k n population {} (rng s) of
           None \<Rightarrow> None
         | Some (xs, g') \<Rightarrow> Some (ret xs (s\<lparr>rng := g'\<rparr>))))"

text \<open>\<^verbatim>\<open>d[key]\<close>: KeyError when the key is absent.\<close>

definition getitem :: "('k \<rightharpoonup> 'v) \<Rightarrow> 'k \<Rightarrow> ('s, 'v) prog" where
  "getitem d key = (case d key of None \<Rightarrow> throw KeyError | Some v \<Rightarrow> ret v)"

text \<open>\<^verbatim>\<open>xs[i] = v\<close> on a list: IndexError when the index is out of range.\<close>

definition setitem :: "'v list \<Rightarrow> nat \<Rightarrow> 'v \<Rightarrow> ('s, 'v list) prog" where
  "setitem xs i v = (if i < length xs then ret (xs[i := v]) else throw IndexError)"

subsection \<open>The distributed runtime\<close>

text \<open>
  \<^verbatim>\<open>torch.distributed\<close> as this process sees it: no process group, or a group with a world
  size and this process's rank. Without a process group the queries of the library raise.
  Which exception they raise depends on the release of the library, so it is carried by
  the state of the runtime: \<open>NotInitialized e\<close> is a process in which
  \<^verbatim>\<open>init_process_group\<close> was never called and whose library answers a query of the default
  group with the exception \<open>e\<close>. Releases that check the group with an \<^verbatim>\<open>assert\<close> statement
  give an AssertionError; the later ones raise a RuntimeError or a ValueError.
\<close>

datatype process_group = NotInitialized (raised: error) | Group (world_size: nat) (rank: nat)

definition dist_get_world_size :: "process_group \<Rightarrow> ('s, int) prog" where
  "dist_get_world_size pg =
     (case pg of NotInitialized e \<Rightarrow> throw e | Group w r \<Rightarrow> ret (int w))"

definition dist_get_rank :: "process_group \<Rightarrow> ('s, nat) prog" where
  "dist_get_rank pg =
     (case pg of NotInitialized e \<Rightarrow> throw e | Group w r \<Rightarrow> ret r)"

text \<open>
  \<^verbatim>\<open>dist.all_gather(tensor_list, tensor)\<close>: the buffer at position \<open>k\<close> receives, in
  place, what rank \<open>k\<close> contributed; this process contributes the data of \<open>tensor\<close>, the
  peers' contributions are \<open>peers k\<close>. There must be one buffer per rank, and a
  contribution that does not fit its buffer is a RuntimeError.
\<close>

fun receive_all :: "(nat \<Rightarrow> 'a list) \<Rightarrow> nat \<Rightarrow> tensor list \<Rightarrow> ('a world, unit) prog" where
  "receive_all vals k [] = ret ()"
| "receive_all vals k (b # bs) = seq (copy_into b (vals k)) (\<lambda>_. receive_all vals (Suc k) bs)"

definition all_gather ::
  "process_group \<Rightarrow> (nat \<Rightarrow> 'a list) \<Rightarrow> tensor list \<Rightarrow> tensor \<Rightarrow> ('a world, unit) prog" where
  "all_gather pg peers tensor_list t s =
     (case pg of
        NotInitialized e \<Rightarrow> throw e s
      | Group w r \<Rightarrow>
          if length tensor_list \<noteq> w then throw RuntimeError s
          else receive_all (\<lambda>k. if k = r then tensor_data s t else peers k) 0 tensor_list s)"

subsection \<open>The source functions\<close>

text \<open>\<^verbatim>\<open>get_world_size\<close> (lines 10-16).\<close>

definition get_world_size :: "process_group \<Rightarrow> ('s, int) prog" where
  "get_world_size pg = try_except (dist_get_world_size pg) AssertionError (ret (- 1))"

type_synonym field_tensors = "string \<rightharpoonup> (string \<rightharpoonup> tensor)"

text \<open>
  Lines 39-62 of \<^verbatim>\<open>sample_anchor_positive_pairs\<close>: the selection of the spans named by
  \<open>index\<close> from the three sub-fields, the split into the first and the second selected
  span, and the two dictionaries. The device of the index tensor is not modelled.
\<close>

definition selected_pairs ::
  "field_tensors \<Rightarrow> nat list \<Rightarrow> ('a world, field_tensors \<times> field_tensors) prog" where
  "selected_pairs tokens index =
     seq (getitem tokens ''tokens'') (\<lambda>f.
     seq (getitem f ''token_ids'') (\<lambda>t.
     seq (index_select t 1 index) (\<lambda>random_token_ids.
     seq (getitem tokens ''tokens'') (\<lambda>f.
     seq (getitem f ''mask'') (\<lambda>t.
     seq (index_select t 1 index) (\<lambda>random_masks.
     seq (getitem tokens ''tokens'') (\<lambda>f.
     seq (getitem f ''type_ids'') (\<lambda>t.
     seq (index_select t 1 index) (\<lambda>random_type_ids.
     seq (seq (chunk random_token_ids 2 1) unpack2) (\<lambda>(anchor_token_ids, positive_token_ids).
     seq (seq (chunk random_masks 2 1) unpack2) (\<lambda>(anchor_masks, positive_masks).
     seq (seq (chunk random_type_ids 2 1) unpack2) (\<lambda>(anchor_type_ids, positive_type_ids).
     seq (squeeze anchor_token_ids 1) (\<lambda>a1.
     seq (squeeze anchor_masks 1) (\<lambda>a2.
     seq (squeeze anchor_type_ids 1) (\<lambda>a3.
     seq (squeeze positive_token_ids 1) (\<lambda>p1.
     seq (squeeze positive_masks 1) (\<lambda>p2.
     seq (squeeze positive_type_ids 1) (\<lambda>p3.
     ret ([''tokens'' \<mapsto> [''token_ids'' \<mapsto> a1, ''mask'' \<mapsto> a2, ''type_ids'' \<mapsto> a3]],
          [''tokens'' \<mapsto> [''token_ids'' \<mapsto> p1, ''mask'' \<mapsto> p2, ''type_ids'' \<mapsto> p3]])
     ))))))))))))))))))"

text \<open>
  \<^verbatim>\<open>sample_anchor_positive_pairs\<close> (lines 19-62): the number of spans (line 36), the draw
  of the index pair (line 37), which may not return, and lines 39-62.
\<close>

definition sample_anchor_positive_pairs ::
  "field_tensors \<Rightarrow> ('a world, field_tensors \<times> field_tensors) partial_prog" where
  "sample_anchor_positive_pairs tokens =
     seq_partial (returning
       (seq (getitem tokens ''tokens'') (\<lambda>f.
        seq (getitem f ''token_ids'') (\<lambda>t.
        tensor_size t 1)))) (\<lambda>num_spans.
     seq_partial (random_sample [0..<num_spans] 2) (\<lambda>index.
     returning (selected_pairs tokens index)))"

text \<open>
  Lines 93-100 of \<^verbatim>\<open>all_gather_anchor_positive_pairs\<close>: the two per-rank lists after the
  collective and the overwrite of this replica's own entries.
\<close>

definition gathered_lists ::
  "process_group \<Rightarrow> (nat \<Rightarrow> 'a list) \<Rightarrow> (nat \<Rightarrow> 'a list) \<Rightarrow> tensor \<Rightarrow> tensor \<Rightarrow>
     ('a::one world, tensor list \<times> tensor list) prog" where
  "gathered_lists pg peer_anchors peer_positives anchors positives =
     seq (seq (dist_get_world_size pg) (\<lambda>w. map_prog (\<lambda>_. ones_like anchors) [0..<nat w])) (\<lambda>anchors_list.
     seq (seq (dist_get_world_size pg) (\<lambda>w. map_prog (\<lambda>_. ones_like positives) [0..<nat w])) (\<lambda>positives_list.
     seq (all_gather pg peer_anchors anchors_list anchors) (\<lambda>_.
     seq (all_gather pg peer_positives positives_list positives) (\<lambda>_.
     seq (seq (dist_get_rank pg) (\<lambda>r. setitem anchors_list r anchors)) (\<lambda>anchors_list.
     seq (seq (dist_get_rank pg) (\<lambda>r. setitem positives_list r positives)) (\<lambda>positives_list.
     ret (anchors_list, positives_list)))))))"

text \<open>\<^verbatim>\<open>all_gather_anchor_positive_pairs\<close> (lines 65-105).\<close>

definition all_gather_anchor_positive_pairs ::
  "process_group \<Rightarrow> (nat \<Rightarrow> 'a list) \<Rightarrow> (nat \<Rightarrow> 'a list) \<Rightarrow> tensor \<Rightarrow> tensor \<Rightarrow>
     ('a::one world, tensor \<times> tensor) prog" where
  "all_gather_anchor_positive_pairs pg peer_anchors peer_positives anchors positives =
     seq (get_world_size pg) (\<lambda>w.
       if w < 2 then ret (anchors, positives)
       else
         seq (gathered_lists pg peer_anchors peer_positives anchors positives) (\<lambda>(anchors_list, positives_list).
         seq (cat anchors_list) (\<lambda>anchors'.
         seq (cat positives_list) (\<lambda>positives'.
         ret (anchors', positives')))))"

subsection \<open>Notions used to state the properties\<close>

text \<open>
  The contents of \<^verbatim>\<open>t[:, i]\<close>: for every entry of dimension 0, in order, the slice at
  position \<open>i\<close> of dimension 1.
\<close>

definition span_of :: "'a world \<Rightarrow> tensor \<Rightarrow> nat \<Rightarrow> 'a list" where
  "span_of s t i = gather (outer t 1) (shape t ! 1) (inner t 1) [i] (tensor_data s t)"

text \<open>
  A view of the \<open>k\<close>-th of two spans of a contiguous storage \<open>a\<close> of \<open>N\<close> cells laid out
  as \<open>B \<times> 2 \<times> \<dots>\<close>, with dimension 1 removed.
\<close>

definition span_view :: "tensor \<Rightarrow> nat \<Rightarrow> nat \<Rightarrow> nat \<Rightarrow> nat list \<Rightarrow> nat \<Rightarrow> bool" where
  "span_view v k a B r N \<longleftrightarrow>
     stor v = a \<and> shape v = B # r \<and> cells v = gather B 2 (prod_list r) [k] [0..<N]"

text \<open>
  A call \<^verbatim>\<open>random.sample(range(n), 2)\<close> on the random source \<open>g\<close> returns: always when
  the pool is used (\<open>n \<le> 21\<close>), and otherwise when some draw after the first differs
  from the first one modulo \<open>n\<close>, so that the redrawing ends.
\<close>

definition draw_returns :: "nat \<Rightarrow> nat stream \<Rightarrow> bool" where
  "draw_returns n g \<longleftrightarrow> n \<le> 21 \<or> (\<exists>m. g !! Suc m mod n \<noteq> shd g mod n)"

text \<open>The dictionary \<^verbatim>\<open>{"tokens": {"token_ids": x1, "mask": x2, "type_ids": x3}}\<close>, by its keys.\<close>

definition field_set :: "field_tensors \<Rightarrow> tensor \<Rightarrow> tensor \<Rightarrow> tensor \<Rightarrow> bool" where
  "field_set d x1 x2 x3 \<longleftrightarrow>
     dom d = {''tokens''} \<and>
     (\<exists>fd. d ''tokens'' = Some fd \<and> dom fd = {''token_ids'', ''mask'', ''type_ids''} \<and>
        fd ''token_ids'' = Some x1 \<and> fd ''mask'' = Some x2 \<and> fd ''type_ids'' = Some x3)"

text \<open>
  A state \<open>s'\<close> extends \<open>s\<close> when the storages of \<open>s\<close> are still there unchanged, possibly
  followed by new ones, the autograd mode is the same, object identities were only
  handed out, and the random source has only advanced. A computation allocates only when
  every run of it ends in an extension of the state it started in.
\<close>

definition extends :: "'a world \<Rightarrow> 'a world \<Rightarrow> bool" where
  "extends s s' \<longleftrightarrow>
     prefix (stors s) (stors s') \<and> grad_enabled s' = grad_enabled s \<and>
     next_id s \<le> next_id s' \<and> (\<exists>k. rng s' = sdrop k (rng s))"

definition allocates_only :: "('a world, 'v) prog \<Rightarrow> bool" where
  "allocates_only m \<longleftrightarrow> (\<forall>s. extends s (snd (m s)))"

text \<open>
  A computation keeps the storages \<open>S\<close> when, started in a state whose storages begin
  with \<open>S\<close>, it ends in such a state, with a result that satisfies \<open>Q\<close> when it returns.
\<close>

definition keeps :: "'a list list \<Rightarrow> ('a world, 'v) prog \<Rightarrow> ('v \<Rightarrow> bool) \<Rightarrow> bool" where
  "keeps S m Q \<longleftrightarrow>
     (\<forall>s. prefix S (stors s) \<longrightarrow>
        prefix S (stors (snd (m s))) \<and> (\<forall>v. fst (m s) = Inr v \<longrightarrow> Q v))"

text \<open>The tensor object \<^verbatim>\<open>torch.ones_like(t)\<close> creates, with identity \<open>i\<close>, on the new storage \<open>a\<close>.\<close>

definition fresh_buffer :: "tensor \<Rightarrow> nat \<Rightarrow> nat \<Rightarrow> tensor" where
  "fresh_buffer t i a = \<lparr>obj_id = i, stor = a, cells = [0..<numel t], shape = shape t, hist = NoHist\<rparr>"

subsection \<open>Example inputs\<close>

text \<open>
  A state with one storage of twelve numbers, a tensor of shape 2 x 3 x 2 over it
  (two examples, three candidate spans, two tokens each), a tensor of shape 2 x 1 x 2
  over its first four cells (a single candidate span), one of shape 2 x 2 x 2 over its
  first eight cells (two candidate spans), and an embedding of shape 3 x 4.
\<close>

definition example_world :: "int world" where
  "example_world =
     \<lparr>rng = 1 ## 0 ## sconst 0,
      stors = [[10, 11, 12, 13, 14, 15, 16, 17, 18, 19, 20, 21]],
      next_id = 2, grad_enabled = True\<rparr>"

definition example_spans :: tensor where
  "example_spans = \<lparr>obj_id = 0, stor = 0, cells = [0..<12], shape = [2, 3, 2], hist = NoHist\<rparr>"

definition example_fields :: "string \<rightharpoonup> tensor" where
  "example_fields =
     [''token_ids'' \<mapsto> example_spans, ''mask'' \<mapsto> example_spans, ''type_ids'' \<mapsto> example_spans]"

definition example_tokens :: field_tensors where
  "example_tokens = [''tokens'' \<mapsto> example_fields]"

definition example_one_span :: tensor where
  "example_one_span = \<lparr>obj_id = 1, stor = 0, cells = [0..<4], shape = [2, 1, 2], hist = NoHist\<rparr>"

definition example_two_spans :: tensor where
  "example_two_spans = \<lparr>obj_id = 1, stor = 0, cells = [0..<8], shape = [2, 2, 2], hist = NoHist\<rparr>"

definition example_embedding :: tensor where
  "example_embedding = \<lparr>obj_id = 0, stor = 0, cells = [0..<12], shape = [3, 4], hist = Prior 7\<rparr>"

section \<open>Properties\<close>

subsection \<open>World size and the single-process path\<close>

lemma get_world_size_uninitialized:
  "get_world_size (NotInitialized e) s = (if e = AssertionError then (Inr (- 1), s) else (Inl e, s))"
  by (simp add: get_world_size_def try_except_def dist_get_world_size_def throw_def ret_def)

lemma get_world_size_group:
  "get_world_size (Group w r) s = (Inr (int w), s)"
  by (simp add: get_world_size_def try_except_def dist_get_world_size_def ret_def)

lemma small_world_noop:
  assumes "get_world_size pg s = (Inr w, s)" "w < 2"
  shows "all_gather_anchor_positive_pairs pg pa pp anchors positives s = (Inr (anchors, positives), s)"
  using assms by (simp add: all_gather_anchor_positive_pairs_def seq_def ret_def)

lemma world_size_error_propagates:
  assumes "get_world_size pg s = (Inl e, s')"
  shows "all_gather_anchor_positive_pairs pg pa pp anchors positives s = (Inl e, s')"
  using assms by (simp add: all_gather_anchor_positive_pairs_def seq_def)

lemma unhandled_propagates:
  assumes "e \<noteq> AssertionError"
  shows "all_gather_anchor_positive_pairs (NotInitialized e) pa pp anchors positives s = (Inl e, s)"
  by (rule world_size_error_propagates) (simp add: get_world_size_uninitialized assms)

lemma small_group_noop:
  assumes "w < 2"
  shows "all_gather_anchor_positive_pairs (Group w r) pa pp anchors positives s =
    (Inr (anchors, positives), s)"
  using get_world_size_group[of w r s] assms by (intro small_world_noop[of _ _ "int w"]) simp_all

text \<open>
  C2. In a process group of world size below 2 the gatherer returns the two tensor
  objects it was given (same object identity, same storage, same history) and leaves the
  state as it was. Without a process group it does so only when the library's query
  raises an AssertionError: with a library that raises a RuntimeError or a ValueError the
  handler of \<^verbatim>\<open>get_world_size\<close> does not apply and the call of line 89 raises that
  exception instead of returning the inputs.
\<close>

theorem gatherer_noop_uninitialized_raises:
  "all_gather_anchor_positive_pairs (NotInitialized RuntimeError) pa pp anchors positives s =
     (Inl RuntimeError, s) \<and>
   all_gather_anchor_positive_pairs (NotInitialized ValueError) pa pp anchors positives s =
     (Inl ValueError, s) \<and>
   all_gather_anchor_positive_pairs (NotInitialized AssertionError) pa pp anchors positives s =
     (Inr (anchors, positives), s) \<and>
   (\<forall>w r. w < 2 \<longrightarrow>
      all_gather_anchor_positive_pairs (Group w r) pa pp anchors positives s =
        (Inr (anchors, positives), s))"
proof -
  have "all_gather_anchor_positive_pairs (NotInitialized AssertionError) pa pp anchors positives s =
     (Inr (anchors, positives), s)"
    by (rule small_world_noop[of _ _ "- 1"]) (simp_all add: get_world_size_uninitialized)
  then show ?thesis by (simp add: unhandled_propagates small_group_noop)
qed

theorem gatherer_noop_uninitialized_raises_witness:
  "(1::nat) < 2 \<and>
   all_gather_anchor_positive_pairs (Group 1 0) (\<lambda>k. []) (\<lambda>k. []) example_embedding example_embedding
     example_world = (Inr (example_embedding, example_embedding), example_world) \<and>
   all_gather_anchor_positive_pairs (NotInitialized RuntimeError) (\<lambda>k. []) (\<lambda>k. [])
     example_embedding example_embedding example_world = (Inl RuntimeError, example_world)"
  using gatherer_noop_uninitialized_raises
    [of "\<lambda>k. []" "\<lambda>k. []" example_embedding example_embedding example_world]
  by simp

text \<open>
  C6. Without a process group the library's query raises. \<^verbatim>\<open>get_world_size\<close> handles an
  AssertionError and nothing else: any other exception of the query surfaces from
  \<^verbatim>\<open>get_world_size\<close> and from the gatherer, in the state the call started in, where a
  world of size 1 makes the gatherer return its inputs.
\<close>

theorem uninitialized_runtime_surfaces:
  assumes "e \<noteq> AssertionError"
  shows "get_world_size (NotInitialized e) s = (Inl e, s) \<and>
    all_gather_anchor_positive_pairs (NotInitialized e) pa pp anchors positives s = (Inl e, s) \<and>
    all_gather_anchor_positive_pairs (Group 1 0) pa pp anchors positives s =
      (Inr (anchors, positives), s) \<and>
    all_gather_anchor_positive_pairs (NotInitialized e) pa pp anchors positives s \<noteq>
      all_gather_anchor_positive_pairs (Group 1 0) pa pp anchors positives s"
  using assms by (simp add: get_world_size_uninitialized unhandled_propagates small_group_noop)

theorem uninitialized_runtime_surfaces_witness:
  "RuntimeError \<noteq> AssertionError \<and>
   get_world_size (NotInitialized RuntimeError) example_world = (Inl RuntimeError, example_world) \<and>
   all_gather_anchor_positive_pairs (NotInitialized RuntimeError) (\<lambda>k. []) (\<lambda>k. [])
     example_embedding example_embedding example_world = (Inl RuntimeError, example_world)"
  using uninitialized_runtime_surfaces
    [of RuntimeError example_world "\<lambda>k. []" "\<lambda>k. []" example_embedding example_embedding]
  by simp

text \<open>
  C8. Without a process group \<^verbatim>\<open>get_world_size\<close> reports the sentinel -1 (not 1) exactly
  when the library's query raises an AssertionError, and -1 then passes the test
  \<open>world size < 2\<close> of the gatherer. With a library that raises a RuntimeError or a
  ValueError no sentinel is returned: \<^verbatim>\<open>get_world_size\<close> raises that exception.
\<close>

theorem sentinel_only_for_assertion:
  "get_world_size (NotInitialized e) s =
     (if e = AssertionError then (Inr (- 1), s) else (Inl e, s)) \<and>
   get_world_size (NotInitialized RuntimeError) s = (Inl RuntimeError, s) \<and>
   get_world_size (NotInitialized ValueError) s = (Inl ValueError, s) \<and>
   get_world_size (NotInitialized RuntimeError) s \<noteq> (Inr (- 1), s) \<and>
   get_world_size (NotInitialized AssertionError) s = (Inr (- 1), s) \<and>
   get_world_size (NotInitialized AssertionError) s \<noteq> (Inr 1, s)"
  by (simp add: get_world_size_uninitialized)

subsection \<open>Selection along a dimension of a row-major list\<close>

lemma gather_map: "map f (gather B S R idx xs) = gather B S R idx (map f xs)"
  by (simp add: gather_def map_concat take_map drop_map comp_def)

lemma gather_Suc:
  "gather (Suc B) S R idx xs =
     gather B S R idx xs @ concat (map (\<lambda>i. take R (drop ((B * S + i) * R) xs)) idx)"
  by (simp add: gather_def)

lemma length_slices:
  assumes "\<forall>i \<in> set idx. (b * S + i) * R + R \<le> length xs"
  shows "length (concat (map (\<lambda>i. take R (drop ((b * S + i) * R) xs)) idx)) = length idx * R"
  using assms by (induction idx) (auto simp: min_def)

lemma slice_bound:
  assumes "b < B" "i < S" "B * S * R \<le> length xs"
  shows "(b * S + i) * R + R \<le> length (xs::'a list)"
proof -
  have "b * S + i + 1 \<le> B * S"
  proof -
    have "b * S + S \<le> B * S" using assms(1)
      by (metis Suc_leI mult_Suc mult_le_mono1 add.commute)
    then show ?thesis using assms(2) by simp
  qed
  then have "(b * S + i + 1) * R \<le> B * S * R" by (rule mult_le_mono1)
  then show ?thesis using assms(3) by (simp add: algebra_simps)
qed

lemma length_gather:
  assumes "B * S * R \<le> length xs" "\<forall>i \<in> set idx. i < S"
  shows "length (gather B S R idx xs) = B * length idx * R"
  using assms(1)
proof (induction B)
  case 0
  then show ?case by (simp add: gather_def)
next
  case (Suc B)
  have le: "B * S * R \<le> length xs" using Suc.prems by (simp add: algebra_simps)
  have "\<forall>i \<in> set idx. (B * S + i) * R + R \<le> length xs"
    using slice_bound[of B "Suc B" _ S R xs] assms(2) Suc.prems by blast
  then have "length (concat (map (\<lambda>i. take R (drop ((B * S + i) * R) xs)) idx)) = length idx * R"
    by (rule length_slices)
  then show ?case using Suc.IH[OF le] by (simp add: gather_Suc algebra_simps)
qed

lemma gather_append:
  assumes "B * S * R \<le> length xs" "\<forall>i \<in> set idx. i < S"
  shows "gather B S R idx (xs @ ys) = gather B S R idx xs"
proof -
  have "take R (drop ((b * S + i) * R) (xs @ ys)) = take R (drop ((b * S + i) * R) xs)"
    if "b < B" "i \<in> set idx" for b i
  proof -
    have "(b * S + i) * R + R \<le> length xs"
      using slice_bound[OF that(1) _ assms(1)] assms(2) that(2) by blast
    then show ?thesis by simp
  qed
  then show ?thesis unfolding gather_def
    by (intro arg_cong[where f=concat] map_cong refl) simp_all
qed

lemma slices_nth:
  assumes "\<forall>i \<in> set idx. length (f i) = R" "j < length idx"
  shows "take R (drop (j * R) (concat (map f idx))) = f (idx ! j)"
  using assms
proof (induction idx arbitrary: j)
  case Nil
  then show ?case by simp
next
  case (Cons a idx)
  show ?case
  proof (cases j)
    case 0
    then show ?thesis using Cons.prems by simp
  next
    case (Suc j')
    then show ?thesis using Cons.prems Cons.IH[of j'] by simp
  qed
qed

lemma gather_gather:
  assumes "B * S * R \<le> length xs" "\<forall>i \<in> set idx. i < S" "\<forall>j \<in> set js. j < length idx"
  shows "gather B (length idx) R js (gather B S R idx xs) = gather B S R (map ((!) idx) js) xs"
  using assms(1)
proof (induction B)
  case 0
  then show ?case by (simp add: gather_def)
next
  case (Suc B)
  let ?f = "\<lambda>i. take R (drop ((B * S + i) * R) xs)"
  let ?G = "gather B S R idx xs"
  let ?blk = "concat (map ?f idx)"
  have le: "B * S * R \<le> length xs" using Suc.prems by (simp add: algebra_simps)
  have lenG: "length ?G = B * length idx * R" by (rule length_gather[OF le assms(2)])
  have lenf: "\<forall>i \<in> set idx. length (?f i) = R"
  proof
    fix i assume "i \<in> set idx"
    then have "(B * S + i) * R + R \<le> length xs"
      using slice_bound[of B "Suc B" i S R xs] assms(2) Suc.prems by blast
    then show "length (?f i) = R" by simp
  qed
  have first: "gather B (length idx) R js (?G @ ?blk) = gather B S R (map ((!) idx) js) xs"
    using gather_append[of B "length idx" R ?G js ?blk] lenG assms(3) Suc.IH[OF le] by simp
  have second: "take R (drop ((B * length idx + j) * R) (?G @ ?blk)) = ?f (idx ! j)"
    if "j \<in> set js" for j
  proof -
    have "(B * length idx + j) * R = length ?G + j * R" by (simp add: lenG algebra_simps)
    then have "drop ((B * length idx + j) * R) (?G @ ?blk) = drop (j * R) ?blk" by simp
    then show ?thesis using slices_nth[OF lenf, of j] assms(3) that by simp
  qed
  have "concat (map (\<lambda>j. take R (drop ((B * length idx + j) * R) (?G @ ?blk))) js) =
        concat (map ?f (map ((!) idx) js))"
    unfolding map_map comp_def
    by (intro arg_cong[where f=concat] map_cong refl second)
  then show ?case using first by (simp add: gather_Suc)
qed

lemma set_gather_upt:
  assumes "x \<in> set (gather B S R idx [0..<N])"
  shows "\<exists>b i. i \<in> set idx \<and> 0 < R \<and> x div R = b * S + i"
proof -
  from assms obtain b i where i: "i \<in> set idx"
    and x: "x \<in> set (take R (drop ((b * S + i) * R) [0..<N]))"
    by (auto simp: gather_def)
  from x have "x \<in> set (take R [(b * S + i) * R..<N])" by simp
  then have "(b * S + i) * R \<le> x \<and> x < (b * S + i) * R + R"
    by (cases "(b * S + i) * R + R \<le> N") (auto dest: in_set_takeD)
  then have "0 < R \<and> x div R = b * S + i"
    by (metis add.commute div_nat_eqI mult.commute mult_Suc_right not_gr_zero not_less_zero mult_0_right)
  then show ?thesis using i by blast
qed

lemma gather_cells_disjoint:
  assumes "\<forall>i \<in> set idx. i < S" "\<forall>i \<in> set idx'. i < S" "set idx \<inter> set idx' = {}"
  shows "set (gather B S R idx [0..<N]) \<inter> set (gather B S R idx' [0..<N]) = {}"
proof (rule ccontr)
  assume "\<not> ?thesis"
  then obtain x where a: "x \<in> set (gather B S R idx [0..<N])"
    and b: "x \<in> set (gather B S R idx' [0..<N])" by blast
  from set_gather_upt[OF a] obtain b1 i1 where 1: "i1 \<in> set idx" "x div R = b1 * S + i1" by blast
  from set_gather_upt[OF b] obtain b2 i2 where 2: "i2 \<in> set idx'" "x div R = b2 * S + i2" by blast
  have "(b1 * S + i1) mod S = (b2 * S + i2) mod S" using 1 2 by simp
  then have "i1 = i2" using 1 2 assms(1,2) by simp
  then show False using 1 2 assms(3) by blast
qed

subsection \<open>One step of each operation\<close>

lemma seq_run: "m s = (Inr v, s1) \<Longrightarrow> seq m k s = k v s1"
  by (simp add: seq_def)

lemma grad_of_next_id [simp]: "grad_of (s\<lparr>next_id := k\<rparr>) = grad_of s"
  by (rule ext)+ (simp add: grad_of_def)

lemma grad_of_stors [simp]: "grad_of (s\<lparr>stors := k\<rparr>) = grad_of s"
  by (rule ext)+ (simp add: grad_of_def)

lemma grad_of_rng [simp]: "grad_of (s\<lparr>rng := k\<rparr>) = grad_of s"
  by (rule ext)+ (simp add: grad_of_def)

lemma index_select_run:
  assumes "1 < length (shape t)" "\<forall>i \<in> set idx. i < shape t ! 1"
  shows "index_select t (Suc 0) idx s =
    (Inr \<lparr>obj_id = next_id s, stor = length (stors s),
          cells = [0..<length (gather (outer t 1) (shape t ! 1) (inner t 1) idx (tensor_data s t))],
          shape = (shape t)[1 := length idx], hist = grad_of s ''IndexSelectBackward'' [t]\<rparr>,
     s\<lparr>stors := stors s @ [gather (outer t 1) (shape t ! 1) (inner t 1) idx (tensor_data s t)],
       next_id := Suc (next_id s)\<rparr>)"
  using assms by (auto simp: index_select_def new_tensor_def throw_def)

lemma chunk2_run:
  assumes "1 < length (shape t)" "shape t ! 1 = 2"
  shows "seq (chunk t 2 (Suc 0)) unpack2 s =
    (Inr (\<lparr>obj_id = next_id s, stor = stor t,
            cells = gather (outer t 1) 2 (inner t 1) [0] (cells t),
            shape = (shape t)[1 := 1], hist = grad_of s ''SplitBackward'' [t]\<rparr>,
          \<lparr>obj_id = Suc (next_id s), stor = stor t,
            cells = gather (outer t 1) 2 (inner t 1) [1] (cells t),
            shape = (shape t)[1 := 1], hist = grad_of s ''SplitBackward'' [t]\<rparr>),
     s\<lparr>next_id := Suc (Suc (next_id s))\<rparr>)"
proof -
  have u: "[0..<2] = [0, Suc 0]" by (simp add: upt_rec)
  show ?thesis using assms
    by (simp add: chunk_def u seq_def narrow_def new_view_def ret_def unpack2_def)
qed

lemma squeeze_run:
  assumes "1 < length (shape t)"
  shows "squeeze t (Suc 0) s =
    (Inr \<lparr>obj_id = next_id s, stor = stor t, cells = cells t,
          shape = (if shape t ! 1 = 1 then take 1 (shape t) @ drop 2 (shape t) else shape t),
          hist = grad_of s ''SqueezeBackward'' [t]\<rparr>,
     s\<lparr>next_id := Suc (next_id s)\<rparr>)"
  using assms by (simp add: squeeze_def new_view_def numeral_2_eq_2)

lemma sample_pool_two:
  assumes "2 \<le> n"
  shows "sample_pool 2 n [0..<n] g =
    ([shd g mod n,
      (if shd (stl g) mod (n - 1) = shd g mod n then n - 1 else shd (stl g) mod (n - 1))],
     stl (stl g))"
proof -
  have a: "shd g mod n < n" using assms by simp
  have b: "shd (stl g) mod (n - 1) < n - 1" using assms by simp
  then have c: "shd (stl g) mod (n - 1) < n" by simp
  show ?thesis using assms a b c
    by (simp add: numeral_2_eq_2 Let_def nth_list_update)
qed

lemma read_cells_append:
  "stor t < length st \<Longrightarrow> read_cells (st @ ys) t = read_cells st t"
  by (simp add: read_cells_def nth_append)

lemma getitem_step:
  "seq (getitem d key) k s = (case d key of None \<Rightarrow> (Inl KeyError, s) | Some v \<Rightarrow> k v s)"
  by (simp add: seq_def getitem_def throw_def ret_def split: option.splits)

lemma index_select_step:
  assumes "1 < length (shape t)" "\<forall>i \<in> set idx. i < shape t ! 1"
  shows "seq (index_select t (Suc 0) idx) k s =
    k \<lparr>obj_id = next_id s, stor = length (stors s),
          cells = [0..<length (gather (outer t 1) (shape t ! 1) (inner t 1) idx (tensor_data s t))],
          shape = (shape t)[1 := length idx], hist = grad_of s ''IndexSelectBackward'' [t]\<rparr>
     (s\<lparr>stors := stors s @ [gather (outer t 1) (shape t ! 1) (inner t 1) idx (tensor_data s t)],
       next_id := Suc (next_id s)\<rparr>)"
  unfolding seq_def by (simp add: index_select_run[OF assms])

lemma chunk2_step:
  assumes "1 < length (shape t)" "shape t ! 1 = 2"
  shows "seq (seq (chunk t 2 (Suc 0)) unpack2) k s =
    k (\<lparr>obj_id = next_id s, stor = stor t,
            cells = gather (outer t 1) 2 (inner t 1) [0] (cells t),
            shape = (shape t)[1 := 1], hist = grad_of s ''SplitBackward'' [t]\<rparr>,
          \<lparr>obj_id = Suc (next_id s), stor = stor t,
            cells = gather (outer t 1) 2 (inner t 1) [1] (cells t),
            shape = (shape t)[1 := 1], hist = grad_of s ''SplitBackward'' [t]\<rparr>)
     (s\<lparr>next_id := Suc (Suc (next_id s))\<rparr>)"
  unfolding seq_def[of "seq _ _"] by (simp add: chunk2_run[OF assms])

lemma squeeze_step:
  assumes "1 < length (shape t)"
  shows "seq (squeeze t (Suc 0)) k s =
    k \<lparr>obj_id = next_id s, stor = stor t, cells = cells t,
          shape = (if shape t ! 1 = 1 then take 1 (shape t) @ drop 2 (shape t) else shape t),
          hist = grad_of s ''SqueezeBackward'' [t]\<rparr>
     (s\<lparr>next_id := Suc (next_id s)\<rparr>)"
  unfolding seq_def by (simp add: squeeze_run[OF assms])

subsection \<open>In-place writes and views\<close>

lemma write_cells_other:
  "q \<notin> set cs \<Longrightarrow> write_cells cs vs st ! q = st ! q"
  unfolding write_cells_def
proof (induction cs arbitrary: vs st)
  case Nil
  then show ?case by simp
next
  case (Cons c cs)
  then show ?case by (cases vs) auto
qed

lemma length_write_cells [simp]: "length (write_cells cs vs st) = length st"
  unfolding write_cells_def
proof (induction cs arbitrary: vs st)
  case Nil
  then show ?case by simp
next
  case (Cons c cs)
  then show ?case by (cases vs) auto
qed

lemma copy_into_independent:
  assumes "stor a \<noteq> stor p \<or> set (cells a) \<inter> set (cells p) = {}"
  shows "tensor_data (snd (copy_into a vs s)) p = tensor_data s p"
proof (cases "stor a = stor p \<and> stor a < length (stors s) \<and> length vs = length (cells a)")
  case True
  with assms have d: "\<forall>q \<in> set (cells p). q \<notin> set (cells a)" by blast
  show ?thesis using True d
    by (simp add: copy_into_def ret_def tensor_data_def read_cells_def write_cells_other)
next
  case False
  then show ?thesis
    by (cases "stor a < length (stors s)")
      (auto simp: copy_into_def ret_def throw_def tensor_data_def read_cells_def list_update_beyond)
qed

lemma span_view_data:
  fixes st :: "'a list list"
  assumes v: "span_view v k a B r (length D)" and k: "k < 2"
    and D: "D = gather B n (prod_list r) [i, j] X" and X: "B * n * prod_list r \<le> length X"
    and ij: "i < n" "j < n" and a: "a < length st" "st ! a = D"
  shows "read_cells st v = gather B n (prod_list r) [[i, j] ! k] X"
proof -
  have "read_cells st v = map ((!) D) (gather B 2 (prod_list r) [k] [0..<length D])"
    using v a by (simp add: span_view_def read_cells_def)
  also have "\<dots> = gather B 2 (prod_list r) [k] D"
    by (simp add: gather_map map_nth)
  also have "\<dots> = gather B n (prod_list r) (map ((!) [i, j]) [k]) X"
    unfolding D using gather_gather[of B n "prod_list r" X "[i, j]" "[k]"] X ij k
    by (simp add: numeral_2_eq_2)
  finally show ?thesis by simp
qed

lemma span_views_disjoint:
  assumes "span_view v 0 a B r N" "span_view w 1 a B r N"
  shows "set (cells v) \<inter> set (cells w) = {}"
  using assms gather_cells_disjoint[of "[0]" 2 "[1]" B "prod_list r" N]
  by (simp add: span_view_def)

subsection \<open>The draw of \<^verbatim>\<open>random.sample\<close>\<close>

lemma setsize_two: "setsize 2 = 21"
  by (simp add: setsize_def)

lemma draw_unselected_skip:
  assumes "\<forall>q<m. g !! q mod n \<in> sel" "g !! m mod n \<notin> sel"
  shows "draw_unselected n sel g = Some (g !! m mod n, sdrop (Suc m) g)"
  using assms
proof (induction m arbitrary: g)
  case 0
  then show ?case by (subst draw_unselected.simps) simp
next
  case (Suc m)
  have h: "shd g mod n \<in> sel" using Suc.prems(1)[rule_format, of 0] by simp
  have "\<forall>q<m. stl g !! q mod n \<in> sel"
  proof (intro allI impI)
    fix q assume "q < m"
    then show "stl g !! q mod n \<in> sel" using Suc.prems(1)[rule_format, of "Suc q"] by simp
  qed
  moreover have "stl g !! m mod n \<notin> sel" using Suc.prems(2) by simp
  ultimately have "draw_unselected n sel (stl g) = Some (stl g !! m mod n, sdrop (Suc m) (stl g))"
    by (rule Suc.IH)
  then show ?case using h by (subst draw_unselected.simps) simp
qed

lemma draw_unselected_SomeD:
  assumes "draw_unselected n sel g = Some (j, g')"
  shows "\<exists>m. (\<forall>q<m. g !! q mod n \<in> sel) \<and> g !! m mod n \<notin> sel \<and>
             j = g !! m mod n \<and> g' = sdrop (Suc m) g"
proof -
  let ?P = "\<lambda>n sel g r. \<exists>m. (\<forall>q<m. g !! q mod n \<in> sel) \<and> g !! m mod n \<notin> sel \<and>
             fst r = g !! m mod n \<and> snd r = sdrop (Suc m) g"
  have "?P n sel g (j, g')"
  proof (rule draw_unselected.raw_induct[where P = ?P, OF _ assms])
    fix draw :: "nat \<Rightarrow> nat set \<Rightarrow> nat stream \<Rightarrow> (nat \<times> nat stream) option"
    fix n sel g r
    assume IH: "\<And>n sel g r. draw n sel g = Some r \<Longrightarrow> ?P n sel g r"
    assume eq: "(if shd g mod n \<in> sel then draw n sel (stl g) else Some (shd g mod n, stl g)) = Some r"
    show "?P n sel g r"
    proof (cases "shd g mod n \<in> sel")
      case True
      with eq have "draw n sel (stl g) = Some r" by simp
      from IH[OF this] obtain m where
        m: "\<forall>q<m. stl g !! q mod n \<in> sel" "stl g !! m mod n \<notin> sel"
          "fst r = stl g !! m mod n" "snd r = sdrop (Suc m) (stl g)" by blast
      have "\<forall>q<Suc m. g !! q mod n \<in> sel"
      proof (intro allI impI)
        fix q assume "q < Suc m"
        then show "g !! q mod n \<in> sel" using True m(1) by (cases q) simp_all
      qed
      then show ?thesis using m(2,3,4) by (intro exI[of _ "Suc m"]) simp
    next
      case False
      with eq have "r = (shd g mod n, stl g)" by simp
      then show ?thesis using False by (intro exI[of _ 0]) simp
    qed
  qed
  then show ?thesis by simp
qed

lemma draw_unselected_None:
  "draw_unselected n sel g = None \<longleftrightarrow> (\<forall>m. g !! m mod n \<in> sel)"
proof
  assume N: "draw_unselected n sel g = None"
  show "\<forall>m. g !! m mod n \<in> sel"
  proof (rule ccontr)
    assume "\<not> (\<forall>m. g !! m mod n \<in> sel)"
    then have ex: "\<exists>m. g !! m mod n \<notin> sel" by simp
    define m where "m = (LEAST m. g !! m mod n \<notin> sel)"
    have a: "g !! m mod n \<notin> sel" unfolding m_def using ex by (rule LeastI_ex)
    have b: "\<forall>q<m. g !! q mod n \<in> sel"
      unfolding m_def using not_less_Least by blast
    from draw_unselected_skip[OF b a] N show False by simp
  qed
next
  assume A: "\<forall>m. g !! m mod n \<in> sel"
  show "draw_unselected n sel g = None"
  proof (cases "draw_unselected n sel g")
    case None
    then show ?thesis .
  next
    case (Some r)
    then have "draw_unselected n sel g = Some (fst r, snd r)" by simp
    from draw_unselected_SomeD[OF this] A show ?thesis by blast
  qed
qed

lemma sample_set_two:
  assumes "0 < n"
  shows "sample_set 2 n [0..<n] {} g =
    (case draw_unselected n {shd g mod n} (stl g) of
       None \<Rightarrow> None
     | Some (j, g') \<Rightarrow> Some ([shd g mod n, j], g'))"
proof -
  have a: "draw_unselected n {} g = Some (shd g mod n, stl g)"
    by (subst draw_unselected.simps) simp
  have i: "shd g mod n < n" using assms by simp
  have j: "[0..<n] ! j = j" if "draw_unselected n {shd g mod n} (stl g) = Some (j, g')" for j g'
  proof -
    from draw_unselected_SomeD[OF that] obtain m where "j = stl g !! m mod n" by blast
    then have "j < n" using assms by simp
    then show ?thesis by simp
  qed
  show ?thesis using i j
    by (auto simp: numeral_2_eq_2 a split: option.splits)
qed

lemma random_sample_too_few:
  "n < 2 \<Longrightarrow> random_sample [0..<n] 2 s = Some (Inl ValueError, s)"
  by (simp add: random_sample_def throw_def)

lemma random_sample_pool2:
  assumes "2 \<le> n" "n \<le> 21"
  shows "random_sample [0..<n] 2 s =
    Some (Inr [shd (rng s) mod n,
      (if shd (stl (rng s)) mod (n - 1) = shd (rng s) mod n then n - 1
       else shd (stl (rng s)) mod (n - 1))],
     s\<lparr>rng := stl (stl (rng s))\<rparr>)"
  using assms by (simp add: random_sample_def setsize_two sample_pool_two ret_def)

lemma random_sample_set2:
  assumes "21 < n"
  shows "random_sample [0..<n] 2 s =
    (case draw_unselected n {shd (rng s) mod n} (stl (rng s)) of
       None \<Rightarrow> None
     | Some (j, g') \<Rightarrow> Some (Inr [shd (rng s) mod n, j], s\<lparr>rng := g'\<rparr>))"
  using assms
  by (simp add: random_sample_def setsize_two sample_set_two ret_def split: option.splits)

lemma draw_two:
  fixes s :: "'a world"
  assumes n: "2 \<le> n"
  shows "if draw_returns n (rng s)
     then \<exists>i j d. random_sample [0..<n] 2 s = Some (Inr [i, j], s\<lparr>rng := sdrop d (rng s)\<rparr>) \<and>
            i < n \<and> j < n \<and> i \<noteq> j \<and> 2 \<le> d \<and> (n \<le> 21 \<longrightarrow> d = 2)
     else random_sample [0..<n] 2 s = None"
proof (cases "n \<le> 21")
  case True
  have a: "shd (rng s) mod n < n" using n by simp
  have b: "shd (stl (rng s)) mod (n - 1) < n - 1" using n by simp
  have r: "draw_returns n (rng s)" using True by (simp add: draw_returns_def)
  have "\<exists>i j. random_sample [0..<n] 2 s = Some (Inr [i, j], s\<lparr>rng := sdrop 2 (rng s)\<rparr>) \<and>
            i < n \<and> j < n \<and> i \<noteq> j"
    unfolding random_sample_pool2[OF n True] using a b by (auto simp: numeral_2_eq_2)
  then have "\<exists>i j d. random_sample [0..<n] 2 s = Some (Inr [i, j], s\<lparr>rng := sdrop d (rng s)\<rparr>) \<and>
            i < n \<and> j < n \<and> i \<noteq> j \<and> 2 \<le> d \<and> (n \<le> 21 \<longrightarrow> d = 2)"
    by (metis order_refl)
  then show ?thesis using r by simp
next
  case False
  then have big: "21 < n" by simp
  let ?i = "shd (rng s) mod n"
  show ?thesis
  proof (cases "draw_returns n (rng s)")
    case True
    then obtain m0 where "rng s !! Suc m0 mod n \<noteq> ?i" using False by (auto simp: draw_returns_def)
    then have "\<not> (\<forall>m. stl (rng s) !! m mod n \<in> {?i})" by auto
    then have "draw_unselected n {?i} (stl (rng s)) \<noteq> None" by (simp add: draw_unselected_None)
    then obtain j g' where dr: "draw_unselected n {?i} (stl (rng s)) = Some (j, g')" by auto
    from draw_unselected_SomeD[OF dr] obtain m where
      m: "stl (rng s) !! m mod n \<notin> {?i}" "j = stl (rng s) !! m mod n"
        "g' = sdrop (Suc m) (stl (rng s))" by blast
    have g': "g' = sdrop (m + 2) (rng s)" using m(3) by simp
    have "random_sample [0..<n] 2 s = Some (Inr [?i, j], s\<lparr>rng := sdrop (m + 2) (rng s)\<rparr>)"
      by (simp add: random_sample_set2[OF big] dr g')
    moreover have "?i < n" "j < n" "?i \<noteq> j" using m(1,2) big by auto
    ultimately have "\<exists>i j d. random_sample [0..<n] 2 s = Some (Inr [i, j], s\<lparr>rng := sdrop d (rng s)\<rparr>) \<and>
            i < n \<and> j < n \<and> i \<noteq> j \<and> 2 \<le> d \<and> (n \<le> 21 \<longrightarrow> d = 2)"
      using False by (intro exI[of _ ?i] exI[of _ j] exI[of _ "m + 2"]) simp
    then show ?thesis using True by simp
  next
    case F: False
    then have "\<forall>m. stl (rng s) !! m mod n \<in> {?i}" by (auto simp: draw_returns_def)
    then have "draw_unselected n {?i} (stl (rng s)) = None" by (simp add: draw_unselected_None)
    then show ?thesis using F by (simp add: random_sample_set2[OF big])
  qed
qed

lemma draw_unselected_list:
  assumes "\<forall>q<m. rest ! q = i" "m < length rest" "rest ! m \<noteq> i" "\<forall>u \<in> set rest. u < n" "i < n"
  shows "draw_unselected n {i} (rest @- g) = Some (rest ! m, drop (Suc m) rest @- g)"
proof -
  have a: "\<forall>q<m. (rest @- g) !! q mod n \<in> {i}" using assms(1,2,5) by simp
  have "rest ! m < n" using assms(2,4) by simp
  then have b: "(rest @- g) !! m mod n \<notin> {i}" "(rest @- g) !! m mod n = rest ! m"
    using assms(2,3) by simp_all
  have c: "sdrop (Suc m) (rest @- g) = drop (Suc m) rest @- g"
  proof -
    have "Suc m - length rest = 0" using assms(2) by simp
    then show ?thesis by (simp only: sdrop_shift sdrop.simps(1))
  qed
  from draw_unselected_skip[OF a b(1)] show ?thesis by (simp only: b(2) c)
qed

lemma shift_fixed_all:
  fixes xs :: "nat list"
  assumes "\<forall>g. xs @- g = g"
  shows "xs = []"
proof (cases xs)
  case Nil
  then show ?thesis .
next
  case (Cons x xs')
  from assms have "shd (xs @- sconst (Suc x)) = shd (sconst (Suc x))" by simp
  then show ?thesis using Cons by simp
qed

lemma set_draw_unique:
  assumes i: "i < n" and r: "\<forall>u \<in> set rest. u < n"
    and H: "\<forall>g. draw_unselected n {i} (rest @- g) = Some (j, g)"
  shows "rest = replicate (length rest - 1) i @ [j]"
proof -
  from H have "draw_unselected n {i} (rest @- sconst i) = Some (j, sconst i)" by blast
  from draw_unselected_SomeD[OF this] obtain m where
    a: "\<forall>q<m. (rest @- sconst i) !! q mod n \<in> {i}" and b: "(rest @- sconst i) !! m mod n \<notin> {i}"
    by blast
  have m: "m < length rest"
  proof (rule ccontr)
    assume "\<not> m < length rest"
    then have "(rest @- sconst i) !! m = i" by simp
    then show False using b i by simp
  qed
  have rm: "rest ! m < n" using m r by simp
  then have neq: "rest ! m \<noteq> i" using b m by simp
  have pre: "\<forall>q<m. rest ! q = i"
  proof (intro allI impI)
    fix q assume q: "q < m"
    then have "rest ! q < n" using m r by simp
    then show "rest ! q = i" using a[rule_format, OF q] q m by simp
  qed
  have D: "draw_unselected n {i} (rest @- g) = Some (rest ! m, drop (Suc m) rest @- g)" for g
    by (rule draw_unselected_list[OF pre m neq r i])
  have j: "j = rest ! m" using D[of "sconst 0"] H by simp
  have "\<forall>g. drop (Suc m) rest @- g = g" using D H by simp
  then have "drop (Suc m) rest = []" by (rule shift_fixed_all)
  then have len: "length rest = Suc m" using m by simp
  have "take m rest = replicate m i"
    using pre len by (simp add: list_eq_iff_nth_eq)
  moreover have "rest = take m rest @ [rest ! m]"
    using len take_Suc_conv_app_nth[OF m] by simp
  ultimately show ?thesis using j len by simp
qed

lemma rng_update_eq:
  fixes s :: "'a world"
  shows "s\<lparr>rng := g'\<rparr> = s\<lparr>rng := g\<rparr> \<longleftrightarrow> g' = g"
proof
  assume "s\<lparr>rng := g'\<rparr> = s\<lparr>rng := g\<rparr>"
  then have "rng (s\<lparr>rng := g'\<rparr>) = rng (s\<lparr>rng := g\<rparr>)" by (rule arg_cong)
  then show "g' = g" by simp
qed simp

lemma pool_run_list:
  fixes s :: "'a world"
  assumes "2 \<le> n" "n \<le> 21" "u < n" "v < n - 1"
  shows "random_sample [0..<n] 2 (s\<lparr>rng := u ## v ## g\<rparr>) =
    Some (Inr [u, if v = u then n - 1 else v], s\<lparr>rng := g\<rparr>)"
  using assms by (simp add: random_sample_pool2)

lemma set_run_list:
  fixes s :: "'a world"
  assumes "21 < n" "u < n"
  shows "random_sample [0..<n] 2 (s\<lparr>rng := u ## rest @- g\<rparr>) =
    (case draw_unselected n {u} (rest @- g) of
       None \<Rightarrow> None
     | Some (j, g') \<Rightarrow> Some (Inr [u, j], s\<lparr>rng := g'\<rparr>))"
  using assms by (auto simp: random_sample_set2 split: option.splits)

lemma draw_uniform_pool:
  fixes s :: "'a world"
  assumes n: "2 \<le> n" "n \<le> 21" and ij: "i < n" "j < n" "i \<noteq> j"
  shows "\<exists>!us. length us = 2 \<and> (\<forall>u \<in> set us. u < n) \<and> (n \<le> 21 \<longrightarrow> us ! 1 < n - 1) \<and>
    (\<forall>g. random_sample [0..<n] 2 (s\<lparr>rng := us @- g\<rparr>) = Some (Inr [i, j], s\<lparr>rng := g\<rparr>))"
proof -
  define w where "w = (if j = n - 1 then i else j)"
  have w: "w < n - 1" using ij by (auto simp: w_def)
  have out: "(if w = i then n - 1 else w) = j" using ij by (auto simp: w_def)
  show ?thesis
  proof (rule ex1I[of _ "[i, w]"])
    have "\<forall>g. random_sample [0..<n] 2 (s\<lparr>rng := [i, w] @- g\<rparr>) = Some (Inr [i, j], s\<lparr>rng := g\<rparr>)"
      by (simp add: pool_run_list[OF n ij(1) w] out)
    then show "length [i, w] = 2 \<and> (\<forall>u \<in> set [i, w]. u < n) \<and> (n \<le> 21 \<longrightarrow> [i, w] ! 1 < n - 1) \<and>
      (\<forall>g. random_sample [0..<n] 2 (s\<lparr>rng := [i, w] @- g\<rparr>) = Some (Inr [i, j], s\<lparr>rng := g\<rparr>))"
      using ij(1) w by simp
  next
    fix us
    assume h: "length us = 2 \<and> (\<forall>u \<in> set us. u < n) \<and> (n \<le> 21 \<longrightarrow> us ! 1 < n - 1) \<and>
      (\<forall>g. random_sample [0..<n] 2 (s\<lparr>rng := us @- g\<rparr>) = Some (Inr [i, j], s\<lparr>rng := g\<rparr>))"
    then obtain u v where us: "us = [u, v]"
      by (cases us; cases "tl us") auto
    have u: "u < n" and v: "v < n - 1" using h us n(2) by simp_all
    from h us have "random_sample [0..<n] 2 (s\<lparr>rng := [u, v] @- sconst 0\<rparr>) =
        Some (Inr [i, j], s\<lparr>rng := sconst 0\<rparr>)" by blast
    then have ui: "u = i" and c: "(if v = u then n - 1 else v) = j"
      by (auto simp: pool_run_list[OF n u v] split: if_splits)
    have "v = w"
    proof (cases "v = i")
      case True
      then have "j = n - 1" using c ui by simp
      then show ?thesis using True by (simp add: w_def)
    next
      case False
      then have "v = j" using c ui by simp
      then show ?thesis using v by (simp add: w_def)
    qed
    then show "us = [i, w]" using us ui by simp
  qed
qed

lemma draw_uniform_set:
  fixes s :: "'a world"
  assumes n: "21 < n" and ij: "i < n" "j < n" "i \<noteq> j" and d: "2 \<le> d"
  shows "\<exists>!us. length us = d \<and> (\<forall>u \<in> set us. u < n) \<and> (n \<le> 21 \<longrightarrow> us ! 1 < n - 1) \<and>
    (\<forall>g. random_sample [0..<n] 2 (s\<lparr>rng := us @- g\<rparr>) = Some (Inr [i, j], s\<lparr>rng := g\<rparr>))"
proof -
  define rest where "rest = replicate (d - 2) i @ [j]"
  have lr: "length rest = d - 1" using d by (simp add: rest_def)
  have pre: "\<forall>q<d - 2. rest ! q = i" by (simp add: rest_def nth_append)
  have m: "d - 2 < length rest" by (simp add: rest_def)
  have neq: "rest ! (d - 2) \<noteq> i" using ij(3) by (simp add: rest_def nth_append)
  have rj: "rest ! (d - 2) = j" by (simp add: rest_def nth_append)
  have all: "\<forall>u \<in> set rest. u < n" using ij by (auto simp: rest_def)
  have dr: "drop (Suc (d - 2)) rest = []" by (simp add: rest_def)
  have D: "draw_unselected n {i} (rest @- g) = Some (j, g)" for g
    using draw_unselected_list[OF pre m neq all ij(1), of g] by (simp only: rj dr) simp
  show ?thesis
  proof (rule ex1I[of _ "i # rest"])
    have "\<forall>g. random_sample [0..<n] 2 (s\<lparr>rng := (i # rest) @- g\<rparr>) = Some (Inr [i, j], s\<lparr>rng := g\<rparr>)"
      by (simp add: set_run_list[OF n ij(1)] D)
    then show "length (i # rest) = d \<and> (\<forall>u \<in> set (i # rest). u < n) \<and>
      (n \<le> 21 \<longrightarrow> (i # rest) ! 1 < n - 1) \<and>
      (\<forall>g. random_sample [0..<n] 2 (s\<lparr>rng := (i # rest) @- g\<rparr>) = Some (Inr [i, j], s\<lparr>rng := g\<rparr>))"
      using lr d all ij(1) n by simp
  next
    fix us
    assume h: "length us = d \<and> (\<forall>u \<in> set us. u < n) \<and> (n \<le> 21 \<longrightarrow> us ! 1 < n - 1) \<and>
      (\<forall>g. random_sample [0..<n] 2 (s\<lparr>rng := us @- g\<rparr>) = Some (Inr [i, j], s\<lparr>rng := g\<rparr>))"
    then obtain u0 rs where us: "us = u0 # rs" using d by (cases us) auto
    have u0: "u0 < n" and rs: "\<forall>u \<in> set rs. u < n" using h us by simp_all
    have run: "(case draw_unselected n {u0} (rs @- g) of
       None \<Rightarrow> None
     | Some (j', g') \<Rightarrow> Some (Inr [u0, j'], s\<lparr>rng := g'\<rparr>)) =
       Some (Inr [i, j] :: error + nat list, s\<lparr>rng := g\<rparr>)" for g
    proof -
      from h us have "random_sample [0..<n] 2 (s\<lparr>rng := u0 ## rs @- g\<rparr>) =
          Some (Inr [i, j], s\<lparr>rng := g\<rparr>)" by simp
      then show ?thesis unfolding set_run_list[OF n u0] .
    qed
    have ui: "u0 = i" using run[of "sconst 0"] by (auto split: option.splits)
    have H: "\<forall>g. draw_unselected n {i} (rs @- g) = Some (j, g)"
    proof
      fix g
      show "draw_unselected n {i} (rs @- g) = Some (j, g)"
        using run[of g] ui by (auto split: option.splits simp: rng_update_eq)
    qed
    have "rs = replicate (length rs - 1) i @ [j]" by (rule set_draw_unique[OF ij(1) rs H])
    moreover have "length rs = d - 1" using h us by auto
    ultimately have "rs = rest" by (simp add: rest_def)
    then show "us = i # rest" using us ui by simp
  qed
qed

lemma draw_uniform:
  fixes s :: "'a world"
  assumes "2 \<le> n" "i < n" "j < n" "i \<noteq> j" "if n \<le> 21 then d = 2 else 2 \<le> d"
  shows "\<exists>!us. length us = d \<and> (\<forall>u \<in> set us. u < n) \<and> (n \<le> 21 \<longrightarrow> us ! 1 < n - 1) \<and>
    (\<forall>g. random_sample [0..<n] 2 (s\<lparr>rng := us @- g\<rparr>) = Some (Inr [i, j], s\<lparr>rng := g\<rparr>))"
proof (cases "n \<le> 21")
  case True
  then have "d = 2" using assms(5) by simp
  then show ?thesis using draw_uniform_pool[OF assms(1) True assms(2,3,4), where s = s] by simp
next
  case False
  then have "21 < n" "2 \<le> d" using assms(5) by simp_all
  then show ?thesis using draw_uniform_set[OF _ assms(2,3,4), where d = d and s = s] by simp
qed

lemma rejection_example:
  fixes s :: "'a world"
  shows "random_sample [0..<22] 2 (s\<lparr>rng := 21 ## 21 ## 5 ## g\<rparr>) = Some (Inr [21, 5], s\<lparr>rng := g\<rparr>)"
proof -
  have "draw_unselected 22 {21} ([21, 5] @- g) = Some ([21, 5] ! 1, drop (Suc 1) [21, 5] @- g)"
    by (rule draw_unselected_list) (simp_all add: less_Suc_eq)
  then have "draw_unselected 22 {21} (21 ## 5 ## g) = Some (5, g)" by simp
  then show ?thesis using set_run_list[where n = 22 and u = 21 and s = s and rest = "[21, 5]" and g = g] by simp
qed

lemma constant_source_example:
  fixes s :: "'a world"
  shows "random_sample [0..<22] 2 (s\<lparr>rng := sconst 0\<rparr>) = None"
proof -
  have "\<not> draw_returns 22 (rng (s\<lparr>rng := sconst 0\<rparr>))" by (simp add: draw_returns_def)
  then show ?thesis using draw_two[of 22 "s\<lparr>rng := sconst 0\<rparr>"] by simp
qed

subsection \<open>A run of the sampler on well-formed input\<close>

lemma sample_steps:
  assumes "tokens ''tokens'' = Some f" "f ''token_ids'' = Some t"
    and "1 < length (shape t)" "shape t ! 1 = n"
  shows "sample_anchor_positive_pairs tokens s =
    (case random_sample [0..<n] 2 s of
       None \<Rightarrow> None
     | Some (Inl e, s1) \<Rightarrow> Some (Inl e, s1)
     | Some (Inr index, s1) \<Rightarrow> Some (selected_pairs tokens index s1))"
  using assms
  by (simp add: sample_anchor_positive_pairs_def seq_partial_def returning_def getitem_step
      tensor_size_def ret_def throw_def split: option.splits sum.splits prod.splits)

lemma sample_lookup_fails:
  "tokens ''tokens'' = None \<Longrightarrow> sample_anchor_positive_pairs tokens s = Some (Inl KeyError, s)"
  "tokens ''tokens'' = Some f \<Longrightarrow> f ''token_ids'' = None \<Longrightarrow>
     sample_anchor_positive_pairs tokens s = Some (Inl KeyError, s)"
  "tokens ''tokens'' = Some f \<Longrightarrow> f ''token_ids'' = Some t \<Longrightarrow> length (shape t) \<le> 1 \<Longrightarrow>
     sample_anchor_positive_pairs tokens s = Some (Inl IndexError, s)"
  by (simp_all add: sample_anchor_positive_pairs_def seq_partial_def returning_def getitem_step
      tensor_size_def ret_def throw_def)

lemma subfield_keys:
  "{''type_ids'', ''mask'', ''token_ids''} = {''token_ids'', ''mask'', ''type_ids''}"
  by auto

lemma field_set_literal:
  "field_set d x1 x2 x3 \<longleftrightarrow>
     d = [''tokens'' \<mapsto> [''token_ids'' \<mapsto> x1, ''mask'' \<mapsto> x2, ''type_ids'' \<mapsto> x3]]"
proof
  assume "field_set d x1 x2 x3"
  then obtain fd where d: "dom d = {''tokens''}" "d ''tokens'' = Some fd"
    and fd: "dom fd = {''token_ids'', ''mask'', ''type_ids''}"
      "fd ''token_ids'' = Some x1" "fd ''mask'' = Some x2" "fd ''type_ids'' = Some x3"
    by (auto simp: field_set_def)
  have "fd k = [''token_ids'' \<mapsto> x1, ''mask'' \<mapsto> x2, ''type_ids'' \<mapsto> x3] k" for k
  proof (cases "k \<in> dom fd")
    case True
    then show ?thesis using fd by auto
  next
    case False
    then have "fd k = None" by blast
    moreover have "k \<noteq> ''token_ids''" "k \<noteq> ''mask''" "k \<noteq> ''type_ids''" using False fd(1) by auto
    ultimately show ?thesis by simp
  qed
  then have e: "fd = [''token_ids'' \<mapsto> x1, ''mask'' \<mapsto> x2, ''type_ids'' \<mapsto> x3]" by (rule ext)
  have "d k = [''tokens'' \<mapsto> fd] k" for k
  proof (cases "k = ''tokens''")
    case True
    then show ?thesis using d by simp
  next
    case False
    then have "k \<notin> dom d" using d(1) by simp
    then have "d k = None" by blast
    then show ?thesis using False by simp
  qed
  then have "d = [''tokens'' \<mapsto> fd]" by (rule ext)
  then show "d = [''tokens'' \<mapsto> [''token_ids'' \<mapsto> x1, ''mask'' \<mapsto> x2, ''type_ids'' \<mapsto> x3]]"
    using e by simp
next
  assume "d = [''tokens'' \<mapsto> [''token_ids'' \<mapsto> x1, ''mask'' \<mapsto> x2, ''type_ids'' \<mapsto> x3]]"
  then show "field_set d x1 x2 x3" by (simp add: field_set_def subfield_keys)
qed

lemma selected_pairs_run:
  fixes s :: "'a world"
  assumes tok: "tokens ''tokens'' = Some f" "f ''token_ids'' = Some t1" "f ''mask'' = Some t2"
      "f ''type_ids'' = Some t3"
    and sh: "shape t1 = B # n # r1" "shape t2 = B # n # r2" "shape t3 = B # n # r3"
    and st: "stor t1 < length (stors s)" "stor t2 < length (stors s)" "stor t3 < length (stors s)"
    and draw: "i < n" "j < n"
  defines "D1 \<equiv> gather B n (prod_list r1) [i, j] (tensor_data s t1)"
    and "D2 \<equiv> gather B n (prod_list r2) [i, j] (tensor_data s t2)"
    and "D3 \<equiv> gather B n (prod_list r3) [i, j] (tensor_data s t3)"
  shows "\<exists>anchors positives s' a1 a2 a3 p1 p2 p3.
    selected_pairs tokens [i, j] s = (Inr (anchors, positives), s') \<and>
    field_set anchors a1 a2 a3 \<and> field_set positives p1 p2 p3 \<and>
    rng s' = rng s \<and> grad_enabled s' = grad_enabled s \<and> next_id s' = next_id s + 15 \<and>
    stors s' = stors s @ [D1, D2, D3] \<and>
    span_view a1 0 (length (stors s)) B r1 (length D1) \<and>
    span_view p1 1 (length (stors s)) B r1 (length D1) \<and>
    span_view a2 0 (length (stors s) + 1) B r2 (length D2) \<and>
    span_view p2 1 (length (stors s) + 1) B r2 (length D2) \<and>
    span_view a3 0 (length (stors s) + 2) B r3 (length D3) \<and>
    span_view p3 1 (length (stors s) + 2) B r3 (length D3)"
  using tok sh st draw
  by (simp add: selected_pairs_def getitem_step ret_def
      index_select_step chunk2_step squeeze_step outer_def inner_def span_view_def D1_def D2_def D3_def
      tensor_data_def read_cells_append field_set_def subfield_keys)

lemma gather_single_nth:
  assumes "b < B" "x < R" "i < S" "B * S * R \<le> length xs"
  shows "gather B S R [i] xs ! (b * R + x) = xs ! ((b * S + i) * R + x)"
proof -
  let ?f = "\<lambda>b. take R (drop ((b * S + i) * R) xs)"
  let ?G = "gather B S R [i] xs"
  have len: "\<forall>c \<in> set [0..<B]. length (?f c) = R"
  proof
    fix c assume "c \<in> set [0..<B]"
    then have "(c * S + i) * R + R \<le> length xs"
      using slice_bound[of c B i S R xs] assms by simp
    then show "length (?f c) = R" by simp
  qed
  have g: "?G = concat (map ?f [0..<B])" by (simp add: gather_def)
  have "take R (drop (b * R) (concat (map ?f [0..<B]))) = ?f ([0..<B] ! b)"
    using slices_nth[OF len, of b] assms(1) by simp
  then have A: "take R (drop (b * R) ?G) = ?f b" using g assms(1) by simp
  have sb: "(b * S + i) * R + R \<le> length xs" using slice_bound[of b B i S R xs] assms by simp
  have lenG: "length ?G = B * R"
    using length_gather[of B S R xs "[i]"] assms by simp
  have bR: "b * R + R \<le> B * R" using assms(1)
    by (metis Suc_leI mult_Suc mult_le_mono1 add.commute)
  have bG: "b * R \<le> length ?G" using bR lenG by linarith
  have "?G ! (b * R + x) = drop (b * R) ?G ! x" by (simp only: nth_drop[OF bG])
  also have "\<dots> = take R (drop (b * R) ?G) ! x" using assms(2) by simp
  also have "\<dots> = ?f b ! x" by (simp only: A)
  also have "\<dots> = drop ((b * S + i) * R) xs ! x" using assms(2) by simp
  also have "\<dots> = xs ! ((b * S + i) * R + x)"
  proof -
    have "(b * S + i) * R \<le> length xs" using sb by linarith
    then show ?thesis by (simp only: nth_drop)
  qed
  finally show ?thesis .
qed

lemma valid_tensor_length:
  "valid_tensor s t \<Longrightarrow> shape t = B # n # r \<Longrightarrow> length (tensor_data s t) = B * n * prod_list r"
  by (simp add: valid_tensor_def tensor_data_def read_cells_def numel_def)

lemma span_of_shape:
  "shape t = B # n # r \<Longrightarrow> span_of s t i = gather B n (prod_list r) [i] (tensor_data s t)"
  by (simp add: span_of_def outer_def inner_def)

lemma span_of_nth:
  assumes "valid_tensor s t" "shape t = B # n # r" "i < n" "b < B" "x < prod_list r"
  shows "span_of s t i ! (b * prod_list r + x) = tensor_data s t ! ((b * n + i) * prod_list r + x)"
  using gather_single_nth[of b B x "prod_list r" i n "tensor_data s t"]
    valid_tensor_length[OF assms(1,2)] assms by (simp add: span_of_shape)

lemma sample_run:
  fixes s :: "'a world"
  assumes tok: "tokens ''tokens'' = Some f" "f ''token_ids'' = Some t1" "f ''mask'' = Some t2"
      "f ''type_ids'' = Some t3"
    and sh: "shape t1 = B # n # r1" "shape t2 = B # n # r2" "shape t3 = B # n # r3"
    and st: "stor t1 < length (stors s)" "stor t2 < length (stors s)" "stor t3 < length (stors s)"
    and n: "2 \<le> n"
  shows "if draw_returns n (rng s)
    then \<exists>i j d anchors positives s' a1 a2 a3 p1 p2 p3.
      sample_anchor_positive_pairs tokens s = Some (Inr (anchors, positives), s') \<and>
      random_sample [0..<n] 2 s = Some (Inr [i, j], s\<lparr>rng := sdrop d (rng s)\<rparr>) \<and>
      i < n \<and> j < n \<and> i \<noteq> j \<and> 2 \<le> d \<and> (n \<le> 21 \<longrightarrow> d = 2) \<and>
      field_set anchors a1 a2 a3 \<and> field_set positives p1 p2 p3 \<and>
      rng s' = sdrop d (rng s) \<and> grad_enabled s' = grad_enabled s \<and> next_id s' = next_id s + 15 \<and>
      stors s' = stors s @ [gather B n (prod_list r1) [i, j] (tensor_data s t1),
                            gather B n (prod_list r2) [i, j] (tensor_data s t2),
                            gather B n (prod_list r3) [i, j] (tensor_data s t3)] \<and>
      span_view a1 0 (length (stors s)) B r1
        (length (gather B n (prod_list r1) [i, j] (tensor_data s t1))) \<and>
      span_view p1 1 (length (stors s)) B r1
        (length (gather B n (prod_list r1) [i, j] (tensor_data s t1))) \<and>
      span_view a2 0 (length (stors s) + 1) B r2
        (length (gather B n (prod_list r2) [i, j] (tensor_data s t2))) \<and>
      span_view p2 1 (length (stors s) + 1) B r2
        (length (gather B n (prod_list r2) [i, j] (tensor_data s t2))) \<and>
      span_view a3 0 (length (stors s) + 2) B r3
        (length (gather B n (prod_list r3) [i, j] (tensor_data s t3))) \<and>
      span_view p3 1 (length (stors s) + 2) B r3
        (length (gather B n (prod_list r3) [i, j] (tensor_data s t3)))
    else sample_anchor_positive_pairs tokens s = None"
proof -
  have l: "1 < length (shape t1)" and nn: "shape t1 ! 1 = n" using sh(1) by simp_all
  note steps = sample_steps[where tokens = tokens and f = f and t = t1 and n = n and s = s,
      OF tok(1,2) l nn]
  show ?thesis
  proof (cases "draw_returns n (rng s)")
    case False
    then have "random_sample [0..<n] 2 s = None" using draw_two[OF n, of s] by simp
    then show ?thesis using False steps by simp
  next
    case True
    then obtain i j d where
      rs: "random_sample [0..<n] 2 s = Some (Inr [i, j], s\<lparr>rng := sdrop d (rng s)\<rparr>)"
      and ij: "i < n" "j < n" "i \<noteq> j" and d: "2 \<le> d" "n \<le> 21 \<longrightarrow> d = 2"
      using draw_two[OF n, of s] by auto
    define s1 where "s1 = s\<lparr>rng := sdrop d (rng s)\<rparr>"
    have st1: "stor t1 < length (stors s1)" "stor t2 < length (stors s1)" "stor t3 < length (stors s1)"
      using st by (simp_all add: s1_def)
    have td: "tensor_data s1 = tensor_data s" by (rule ext) (simp add: tensor_data_def s1_def)
    have s1f: "stors s1 = stors s" "rng s1 = sdrop d (rng s)" "grad_enabled s1 = grad_enabled s"
      "next_id s1 = next_id s" by (simp_all add: s1_def)
    have run: "sample_anchor_positive_pairs tokens s = Some (selected_pairs tokens [i, j] s1)"
      using steps rs by (simp add: s1_def)
    from selected_pairs_run[where tokens = tokens and f = f and s = s1, OF tok sh st1 ij(1,2)]
    obtain anchors positives s' a1 a2 a3 p1 p2 p3 where
      sp: "selected_pairs tokens [i, j] s1 = (Inr (anchors, positives), s')"
      and fs: "field_set anchors a1 a2 a3" "field_set positives p1 p2 p3"
      and fr: "rng s' = rng s1" "grad_enabled s' = grad_enabled s1" "next_id s' = next_id s1 + 15"
        "stors s' = stors s1 @ [gather B n (prod_list r1) [i, j] (tensor_data s1 t1),
                            gather B n (prod_list r2) [i, j] (tensor_data s1 t2),
                            gather B n (prod_list r3) [i, j] (tensor_data s1 t3)]"
      and v: "span_view a1 0 (length (stors s1)) B r1
        (length (gather B n (prod_list r1) [i, j] (tensor_data s1 t1)))"
       "span_view p1 1 (length (stors s1)) B r1
        (length (gather B n (prod_list r1) [i, j] (tensor_data s1 t1)))"
       "span_view a2 0 (length (stors s1) + 1) B r2
        (length (gather B n (prod_list r2) [i, j] (tensor_data s1 t2)))"
       "span_view p2 1 (length (stors s1) + 1) B r2
        (length (gather B n (prod_list r2) [i, j] (tensor_data s1 t2)))"
       "span_view a3 0 (length (stors s1) + 2) B r3
        (length (gather B n (prod_list r3) [i, j] (tensor_data s1 t3)))"
       "span_view p3 1 (length (stors s1) + 2) B r3
        (length (gather B n (prod_list r3) [i, j] (tensor_data s1 t3)))"
      by blast
    have run': "sample_anchor_positive_pairs tokens s = Some (Inr (anchors, positives), s')"
      using run sp by simp
    have "\<exists>i j d anchors positives s' a1 a2 a3 p1 p2 p3.
      sample_anchor_positive_pairs tokens s = Some (Inr (anchors, positives), s') \<and>
      random_sample [0..<n] 2 s = Some (Inr [i, j], s\<lparr>rng := sdrop d (rng s)\<rparr>) \<and>
      i < n \<and> j < n \<and> i \<noteq> j \<and> 2 \<le> d \<and> (n \<le> 21 \<longrightarrow> d = 2) \<and>
      field_set anchors a1 a2 a3 \<and> field_set positives p1 p2 p3 \<and>
      rng s' = sdrop d (rng s) \<and> grad_enabled s' = grad_enabled s \<and> next_id s' = next_id s + 15 \<and>
      stors s' = stors s @ [gather B n (prod_list r1) [i, j] (tensor_data s t1),
                            gather B n (prod_list r2) [i, j] (tensor_data s t2),
                            gather B n (prod_list r3) [i, j] (tensor_data s t3)] \<and>
      span_view a1 0 (length (stors s)) B r1
        (length (gather B n (prod_list r1) [i, j] (tensor_data s t1))) \<and>
      span_view p1 1 (length (stors s)) B r1
        (length (gather B n (prod_list r1) [i, j] (tensor_data s t1))) \<and>
      span_view a2 0 (length (stors s) + 1) B r2
        (length (gather B n (prod_list r2) [i, j] (tensor_data s t2))) \<and>
      span_view p2 1 (length (stors s) + 1) B r2
        (length (gather B n (prod_list r2) [i, j] (tensor_data s t2))) \<and>
      span_view a3 0 (length (stors s) + 2) B r3
        (length (gather B n (prod_list r3) [i, j] (tensor_data s t3))) \<and>
      span_view p3 1 (length (stors s) + 2) B r3
        (length (gather B n (prod_list r3) [i, j] (tensor_data s t3)))"
      apply (rule exI[of _ i], rule exI[of _ j], rule exI[of _ d])
      apply (rule exI[of _ anchors], rule exI[of _ positives], rule exI[of _ s'])
      apply (rule exI[of _ a1], rule exI[of _ a2], rule exI[of _ a3])
      apply (rule exI[of _ p1], rule exI[of _ p2], rule exI[of _ p3])
      using run' rs ij d fs fr v unfolding td s1f
      apply (intro conjI)
                       apply assumption+
      done
    then show ?thesis using True by simp
  qed
qed

lemma span_data:
  assumes v: "span_view a 0 (length st) B r (length D)" "span_view p 1 (length st) B r (length D)"
    and D: "D = gather B n (prod_list r) [i, j] (tensor_data s t)"
    and val: "valid_tensor s t" and sh: "shape t = B # n # r" and ij: "i < n" "j < n"
    and s': "stors s' = st @ D # rest"
  shows "tensor_data s' a = span_of s t i" "tensor_data s' p = span_of s t j"
proof -
  have len: "B * n * prod_list r \<le> length (tensor_data s t)"
    using valid_tensor_length[OF val sh] by simp
  have a: "length st < length (stors s')" "stors s' ! length st = D" using s' by simp_all
  show "tensor_data s' a = span_of s t i"
    using span_view_data[OF v(1) _ D len ij a] by (simp add: tensor_data_def[of s'] span_of_shape[OF sh])
  show "tensor_data s' p = span_of s t j"
    using span_view_data[OF v(2) _ D len ij a] by (simp add: tensor_data_def[of s'] span_of_shape[OF sh])
qed

lemma length_span_of:
  assumes "valid_tensor s t" "shape t = B # n # r" "i < n"
  shows "length (span_of s t i) = B * prod_list r"
  using length_gather[of B n "prod_list r" "tensor_data s t" "[i]"]
    valid_tensor_length[OF assms(1,2)] assms(3)
  by (simp add: span_of_shape[OF assms(2)])

subsection \<open>Too few candidate spans\<close>

text \<open>
  C3. When the token-id tensor has fewer than two entries along dimension 1, the sampler
  does not return a result: the call returns with the ValueError by which
  \<^verbatim>\<open>random.sample\<close> rejects a sample of two from a smaller population, before anything
  is drawn or allocated.
\<close>

theorem too_few_spans_rejected:
  assumes "tokens ''tokens'' = Some f" "f ''token_ids'' = Some t"
    and "1 < length (shape t)" "shape t ! 1 < 2"
  shows "sample_anchor_positive_pairs tokens s = Some (Inl ValueError, s)"
  using assms
  by (simp add: sample_steps[where tokens = tokens and f = f and t = t and n = "shape t ! 1" and s = s,
      OF assms(1,2,3) refl] random_sample_too_few)

theorem too_few_spans_rejected_witness:
  "sample_anchor_positive_pairs
     [''tokens'' \<mapsto> [''token_ids'' \<mapsto> example_one_span, ''mask'' \<mapsto> example_one_span,
                      ''type_ids'' \<mapsto> example_one_span]] example_world =
   Some (Inl ValueError, example_world)"
  using too_few_spans_rejected [of
      "[''tokens'' \<mapsto> [''token_ids'' \<mapsto> example_one_span, ''mask'' \<mapsto> example_one_span,
                       ''type_ids'' \<mapsto> example_one_span]]"
      "[''token_ids'' \<mapsto> example_one_span, ''mask'' \<mapsto> example_one_span,
        ''type_ids'' \<mapsto> example_one_span]"
      example_one_span example_world]
  by (simp add: example_one_span_def)

subsection \<open>The sampled pair of spans\<close>

text \<open>
  C4. On a field tensor set whose three sub-field tensors have a dimension 1 of size
  \<open>n \<ge> 2\<close>, the sampler returns whenever the draw does (\<open>draw_returns\<close>: always for
  \<open>n \<le> 21\<close>) and does not return otherwise. One call of \<^verbatim>\<open>random.sample\<close> draws one
  pair \<open>[i, j]\<close> of distinct indices below \<open>n\<close>, taking \<open>d\<close> draws from the random source:
  two when the pool is used, two or more with redrawing. Every anchor sub-field holds the
  span \<open>i\<close> and every positive sub-field the span \<open>j\<close> of the corresponding input tensor,
  for every example \<open>b\<close> of the batch and every position \<open>x\<close> within the span. The draw is
  uniform: for every ordered pair of distinct indices and every number of draws the call
  can take, exactly one sequence of that many \<open>randbelow\<close> results yields the pair.
\<close>

theorem sampler_shared_span_pair:
  fixes s :: "'a world"
  assumes tok: "tokens ''tokens'' = Some f" "f ''token_ids'' = Some tt" "f ''mask'' = Some tm"
      "f ''type_ids'' = Some ty"
    and valid: "valid_tensor s tt" "valid_tensor s tm" "valid_tensor s ty"
    and sh: "shape tt = B # n # rt" "shape tm = B # n # rm" "shape ty = B # n # ry"
    and n: "2 \<le> n"
  shows "(if draw_returns n (rng s)
    then \<exists>i j d a1 a2 a3 p1 p2 p3 s'.
      sample_anchor_positive_pairs tokens s =
        Some (Inr ([''tokens'' \<mapsto> [''token_ids'' \<mapsto> a1, ''mask'' \<mapsto> a2, ''type_ids'' \<mapsto> a3]],
                   [''tokens'' \<mapsto> [''token_ids'' \<mapsto> p1, ''mask'' \<mapsto> p2, ''type_ids'' \<mapsto> p3]]), s') \<and>
      random_sample [0..<n] 2 s = Some (Inr [i, j], s\<lparr>rng := sdrop d (rng s)\<rparr>) \<and>
      i < n \<and> j < n \<and> i \<noteq> j \<and> 2 \<le> d \<and> (n \<le> 21 \<longrightarrow> d = 2) \<and>
      rng s' = sdrop d (rng s) \<and>
      tensor_data s' a1 = span_of s tt i \<and> tensor_data s' p1 = span_of s tt j \<and>
      tensor_data s' a2 = span_of s tm i \<and> tensor_data s' p2 = span_of s tm j \<and>
      tensor_data s' a3 = span_of s ty i \<and> tensor_data s' p3 = span_of s ty j \<and>
      length (tensor_data s' a1) = B * prod_list rt \<and> length (tensor_data s' p1) = B * prod_list rt \<and>
      length (tensor_data s' a2) = B * prod_list rm \<and> length (tensor_data s' p2) = B * prod_list rm \<and>
      length (tensor_data s' a3) = B * prod_list ry \<and> length (tensor_data s' p3) = B * prod_list ry \<and>
      (\<forall>b x. b < B \<and> x < prod_list rt \<longrightarrow>
         tensor_data s' a1 ! (b * prod_list rt + x) = tensor_data s tt ! ((b * n + i) * prod_list rt + x) \<and>
         tensor_data s' p1 ! (b * prod_list rt + x) = tensor_data s tt ! ((b * n + j) * prod_list rt + x)) \<and>
      (\<forall>b x. b < B \<and> x < prod_list rm \<longrightarrow>
         tensor_data s' a2 ! (b * prod_list rm + x) = tensor_data s tm ! ((b * n + i) * prod_list rm + x) \<and>
         tensor_data s' p2 ! (b * prod_list rm + x) = tensor_data s tm ! ((b * n + j) * prod_list rm + x)) \<and>
      (\<forall>b x. b < B \<and> x < prod_list ry \<longrightarrow>
         tensor_data s' a3 ! (b * prod_list ry + x) = tensor_data s ty ! ((b * n + i) * prod_list ry + x) \<and>
         tensor_data s' p3 ! (b * prod_list ry + x) = tensor_data s ty ! ((b * n + j) * prod_list ry + x))
    else sample_anchor_positive_pairs tokens s = None) \<and>
   (\<forall>i' j' d'. i' < n \<and> j' < n \<and> i' \<noteq> j' \<and> (if n \<le> 21 then d' = 2 else 2 \<le> d') \<longrightarrow>
      (\<exists>!us. length us = d' \<and> (\<forall>u \<in> set us. u < n) \<and> (n \<le> 21 \<longrightarrow> us ! 1 < n - 1) \<and>
         (\<forall>g. random_sample [0..<n] 2 (s\<lparr>rng := us @- g\<rparr>) = Some (Inr [i', j'], s\<lparr>rng := g\<rparr>))))"
proof (rule conjI)
  have st: "stor tt < length (stors s)" "stor tm < length (stors s)" "stor ty < length (stors s)"
    using valid by (simp_all add: valid_tensor_def)
  note R = sample_run[where tokens = tokens and f = f and s = s, OF tok sh st n]
  show "if draw_returns n (rng s)
    then \<exists>i j d a1 a2 a3 p1 p2 p3 s'.
      sample_anchor_positive_pairs tokens s =
        Some (Inr ([''tokens'' \<mapsto> [''token_ids'' \<mapsto> a1, ''mask'' \<mapsto> a2, ''type_ids'' \<mapsto> a3]],
                   [''tokens'' \<mapsto> [''token_ids'' \<mapsto> p1, ''mask'' \<mapsto> p2, ''type_ids'' \<mapsto> p3]]), s') \<and>
      random_sample [0..<n] 2 s = Some (Inr [i, j], s\<lparr>rng := sdrop d (rng s)\<rparr>) \<and>
      i < n \<and> j < n \<and> i \<noteq> j \<and> 2 \<le> d \<and> (n \<le> 21 \<longrightarrow> d = 2) \<and>
      rng s' = sdrop d (rng s) \<and>
      tensor_data s' a1 = span_of s tt i \<and> tensor_data s' p1 = span_of s tt j \<and>
      tensor_data s' a2 = span_of s tm i \<and> tensor_data s' p2 = span_of s tm j \<and>
      tensor_data s' a3 = span_of s ty i \<and> tensor_data s' p3 = span_of s ty j \<and>
      length (tensor_data s' a1) = B * prod_list rt \<and> length (tensor_data s' p1) = B * prod_list rt \<and>
      length (tensor_data s' a2) = B * prod_list rm \<and> length (tensor_data s' p2) = B * prod_list rm \<and>
      length (tensor_data s' a3) = B * prod_list ry \<and> length (tensor_data s' p3) = B * prod_list ry \<and>
      (\<forall>b x. b < B \<and> x < prod_list rt \<longrightarrow>
         tensor_data s' a1 ! (b * prod_list rt + x) = tensor_data s tt ! ((b * n + i) * prod_list rt + x) \<and>
         tensor_data s' p1 ! (b * prod_list rt + x) = tensor_data s tt ! ((b * n + j) * prod_list rt + x)) \<and>
      (\<forall>b x. b < B \<and> x < prod_list rm \<longrightarrow>
         tensor_data s' a2 ! (b * prod_list rm + x) = tensor_data s tm ! ((b * n + i) * prod_list rm + x) \<and>
         tensor_data s' p2 ! (b * prod_list rm + x) = tensor_data s tm ! ((b * n + j) * prod_list rm + x)) \<and>
      (\<forall>b x. b < B \<and> x < prod_list ry \<longrightarrow>
         tensor_data s' a3 ! (b * prod_list ry + x) = tensor_data s ty ! ((b * n + i) * prod_list ry + x) \<and>
         tensor_data s' p3 ! (b * prod_list ry + x) = tensor_data s ty ! ((b * n + j) * prod_list ry + x))
    else sample_anchor_positive_pairs tokens s = None"
  proof (cases "draw_returns n (rng s)")
    case False
    then show ?thesis using R by simp
  next
    case True
    define D where "D = (\<lambda>r t (i::nat) (j::nat). gather B n (prod_list r) [i, j] (tensor_data s t))"
    from R True obtain i j d anchors positives s' a1 a2 a3 p1 p2 p3 where
      run: "sample_anchor_positive_pairs tokens s = Some (Inr (anchors, positives), s')"
      and rs: "random_sample [0..<n] 2 s = Some (Inr [i, j], s\<lparr>rng := sdrop d (rng s)\<rparr>)"
      and ij: "i < n" "j < n" "i \<noteq> j" and d: "2 \<le> d" "n \<le> 21 \<longrightarrow> d = 2"
      and fs: "field_set anchors a1 a2 a3" "field_set positives p1 p2 p3"
      and rng: "rng s' = sdrop d (rng s)"
      and stors: "stors s' = stors s @ [D rt tt i j, D rm tm i j, D ry ty i j]"
      and v1: "span_view a1 0 (length (stors s)) B rt (length (D rt tt i j))"
        "span_view p1 1 (length (stors s)) B rt (length (D rt tt i j))"
      and v2: "span_view a2 0 (length (stors s) + 1) B rm (length (D rm tm i j))"
        "span_view p2 1 (length (stors s) + 1) B rm (length (D rm tm i j))"
      and v3: "span_view a3 0 (length (stors s) + 2) B ry (length (D ry ty i j))"
        "span_view p3 1 (length (stors s) + 2) B ry (length (D ry ty i j))"
      unfolding D_def by (simp only: if_True) blast
    have d1: "tensor_data s' a1 = span_of s tt i" "tensor_data s' p1 = span_of s tt j"
      using span_data[OF v1 _ valid(1) sh(1) ij(1,2), of s' "[D rm tm i j, D ry ty i j]"] stors
      by (simp_all add: D_def)
    have d2: "tensor_data s' a2 = span_of s tm i" "tensor_data s' p2 = span_of s tm j"
      using span_data[of a2 "stors s @ [D rt tt i j]" B rm "D rm tm i j" p2 n i j s tm s' "[D ry ty i j]"]
        v2 valid(2) sh(2) ij(1,2) stors
      by (simp_all add: D_def)
    have d3: "tensor_data s' a3 = span_of s ty i" "tensor_data s' p3 = span_of s ty j"
      using span_data[of a3 "stors s @ [D rt tt i j, D rm tm i j]" B ry "D ry ty i j" p3 n i j s ty s' "[]"]
        v3 valid(3) sh(3) ij(1,2) stors
      by (simp_all add: D_def)
    note l1 = length_span_of[OF valid(1) sh(1) ij(1)] length_span_of[OF valid(1) sh(1) ij(2)]
    note l2 = length_span_of[OF valid(2) sh(2) ij(1)] length_span_of[OF valid(2) sh(2) ij(2)]
    note l3 = length_span_of[OF valid(3) sh(3) ij(1)] length_span_of[OF valid(3) sh(3) ij(2)]
    have run': "sample_anchor_positive_pairs tokens s =
        Some (Inr ([''tokens'' \<mapsto> [''token_ids'' \<mapsto> a1, ''mask'' \<mapsto> a2, ''type_ids'' \<mapsto> a3]],
                   [''tokens'' \<mapsto> [''token_ids'' \<mapsto> p1, ''mask'' \<mapsto> p2, ''type_ids'' \<mapsto> p3]]), s')"
      using run fs by (simp add: field_set_literal)
    have e1: "\<forall>b x. b < B \<and> x < prod_list rt \<longrightarrow>
         tensor_data s' a1 ! (b * prod_list rt + x) = tensor_data s tt ! ((b * n + i) * prod_list rt + x) \<and>
         tensor_data s' p1 ! (b * prod_list rt + x) = tensor_data s tt ! ((b * n + j) * prod_list rt + x)"
      unfolding d1 using span_of_nth[OF valid(1) sh(1)] ij by blast
    have e2: "\<forall>b x. b < B \<and> x < prod_list rm \<longrightarrow>
         tensor_data s' a2 ! (b * prod_list rm + x) = tensor_data s tm ! ((b * n + i) * prod_list rm + x) \<and>
         tensor_data s' p2 ! (b * prod_list rm + x) = tensor_data s tm ! ((b * n + j) * prod_list rm + x)"
      unfolding d2 using span_of_nth[OF valid(2) sh(2)] ij by blast
    have e3: "\<forall>b x. b < B \<and> x < prod_list ry \<longrightarrow>
         tensor_data s' a3 ! (b * prod_list ry + x) = tensor_data s ty ! ((b * n + i) * prod_list ry + x) \<and>
         tensor_data s' p3 ! (b * prod_list ry + x) = tensor_data s ty ! ((b * n + j) * prod_list ry + x)"
      unfolding d3 using span_of_nth[OF valid(3) sh(3)] ij by blast
    have la: "length (tensor_data s' a1) = B * prod_list rt" "length (tensor_data s' p1) = B * prod_list rt"
      "length (tensor_data s' a2) = B * prod_list rm" "length (tensor_data s' p2) = B * prod_list rm"
      "length (tensor_data s' a3) = B * prod_list ry" "length (tensor_data s' p3) = B * prod_list ry"
      by (simp_all only: d1 d2 d3 l1 l2 l3)
    have "\<exists>i j d a1 a2 a3 p1 p2 p3 s'.
      sample_anchor_positive_pairs tokens s =
        Some (Inr ([''tokens'' \<mapsto> [''token_ids'' \<mapsto> a1, ''mask'' \<mapsto> a2, ''type_ids'' \<mapsto> a3]],
                   [''tokens'' \<mapsto> [''token_ids'' \<mapsto> p1, ''mask'' \<mapsto> p2, ''type_ids'' \<mapsto> p3]]), s') \<and>
      random_sample [0..<n] 2 s = Some (Inr [i, j], s\<lparr>rng := sdrop d (rng s)\<rparr>) \<and>
      i < n \<and> j < n \<and> i \<noteq> j \<and> 2 \<le> d \<and> (n \<le> 21 \<longrightarrow> d = 2) \<and>
      rng s' = sdrop d (rng s) \<and>
      tensor_data s' a1 = span_of s tt i \<and> tensor_data s' p1 = span_of s tt j \<and>
      tensor_data s' a2 = span_of s tm i \<and> tensor_data s' p2 = span_of s tm j \<and>
      tensor_data s' a3 = span_of s ty i \<and> tensor_data s' p3 = span_of s ty j \<and>
      length (tensor_data s' a1) = B * prod_list rt \<and> length (tensor_data s' p1) = B * prod_list rt \<and>
      length (tensor_data s' a2) = B * prod_list rm \<and> length (tensor_data s' p2) = B * prod_list rm \<and>
      length (tensor_data s' a3) = B * prod_list ry \<and> length (tensor_data s' p3) = B * prod_list ry \<and>
      (\<forall>b x. b < B \<and> x < prod_list rt \<longrightarrow>
         tensor_data s' a1 ! (b * prod_list rt + x) = tensor_data s tt ! ((b * n + i) * prod_list rt + x) \<and>
         tensor_data s' p1 ! (b * prod_list rt + x) = tensor_data s tt ! ((b * n + j) * prod_list rt + x)) \<and>
      (\<forall>b x. b < B \<and> x < prod_list rm \<longrightarrow>
         tensor_data s' a2 ! (b * prod_list rm + x) = tensor_data s tm ! ((b * n + i) * prod_list rm + x) \<and>
         tensor_data s' p2 ! (b * prod_list rm + x) = tensor_data s tm ! ((b * n + j) * prod_list rm + x)) \<and>
      (\<forall>b x. b < B \<and> x < prod_list ry \<longrightarrow>
         tensor_data s' a3 ! (b * prod_list ry + x) = tensor_data s ty ! ((b * n + i) * prod_list ry + x) \<and>
         tensor_data s' p3 ! (b * prod_list ry + x) = tensor_data s ty ! ((b * n + j) * prod_list ry + x))"
      apply (rule exI[of _ i], rule exI[of _ j], rule exI[of _ d])
      apply (rule exI[of _ a1], rule exI[of _ a2], rule exI[of _ a3])
      apply (rule exI[of _ p1], rule exI[of _ p2], rule exI[of _ p3], rule exI[of _ s'])
      using run' rs ij d rng d1 d2 d3 la e1 e2 e3 apply (intro conjI)
                          apply assumption+
      done
    then show ?thesis using True by simp
  qed
next
  show "\<forall>i' j' d'. i' < n \<and> j' < n \<and> i' \<noteq> j' \<and> (if n \<le> 21 then d' = 2 else 2 \<le> d') \<longrightarrow>
      (\<exists>!us. length us = d' \<and> (\<forall>u \<in> set us. u < n) \<and> (n \<le> 21 \<longrightarrow> us ! 1 < n - 1) \<and>
         (\<forall>g. random_sample [0..<n] 2 (s\<lparr>rng := us @- g\<rparr>) = Some (Inr [i', j'], s\<lparr>rng := g\<rparr>)))"
    using draw_uniform[OF n, where s = s] by blast
qed

theorem sampler_shared_span_pair_witness:
  "valid_tensor example_world example_spans \<and> shape example_spans = 2 # 3 # [2] \<and>
   draw_returns 3 (rng example_world) \<and>
   (\<exists>i j d a1 a2 a3 p1 p2 p3 s'.
      sample_anchor_positive_pairs example_tokens example_world =
        Some (Inr ([''tokens'' \<mapsto> [''token_ids'' \<mapsto> a1, ''mask'' \<mapsto> a2, ''type_ids'' \<mapsto> a3]],
                   [''tokens'' \<mapsto> [''token_ids'' \<mapsto> p1, ''mask'' \<mapsto> p2, ''type_ids'' \<mapsto> p3]]), s') \<and>
      random_sample [0..<3] 2 example_world =
        Some (Inr [i, j], example_world\<lparr>rng := sdrop d (rng example_world)\<rparr>) \<and>
      i < 3 \<and> j < 3 \<and> i \<noteq> j \<and> 2 \<le> d \<and> ((3::nat) \<le> 21 \<longrightarrow> d = 2) \<and>
      rng s' = sdrop d (rng example_world) \<and>
      tensor_data s' a1 = span_of example_world example_spans i \<and>
      tensor_data s' p1 = span_of example_world example_spans j \<and>
      tensor_data s' a2 = span_of example_world example_spans i \<and>
      tensor_data s' p2 = span_of example_world example_spans j \<and>
      tensor_data s' a3 = span_of example_world example_spans i \<and>
      tensor_data s' p3 = span_of example_world example_spans j \<and>
      length (tensor_data s' a1) = 2 * prod_list [2] \<and> length (tensor_data s' p1) = 2 * prod_list [2] \<and>
      length (tensor_data s' a2) = 2 * prod_list [2] \<and> length (tensor_data s' p2) = 2 * prod_list [2] \<and>
      length (tensor_data s' a3) = 2 * prod_list [2] \<and> length (tensor_data s' p3) = 2 * prod_list [2] \<and>
      (\<forall>b x. b < 2 \<and> x < prod_list [2] \<longrightarrow>
         tensor_data s' a1 ! (b * prod_list [2] + x) =
           tensor_data example_world example_spans ! ((b * 3 + i) * prod_list [2] + x) \<and>
         tensor_data s' p1 ! (b * prod_list [2] + x) =
           tensor_data example_world example_spans ! ((b * 3 + j) * prod_list [2] + x)) \<and>
      (\<forall>b x. b < 2 \<and> x < prod_list [2] \<longrightarrow>
         tensor_data s' a2 ! (b * prod_list [2] + x) =
           tensor_data example_world example_spans ! ((b * 3 + i) * prod_list [2] + x) \<and>
         tensor_data s' p2 ! (b * prod_list [2] + x) =
           tensor_data example_world example_spans ! ((b * 3 + j) * prod_list [2] + x)) \<and>
      (\<forall>b x. b < 2 \<and> x < prod_list [2] \<longrightarrow>
         tensor_data s' a3 ! (b * prod_list [2] + x) =
           tensor_data example_world example_spans ! ((b * 3 + i) * prod_list [2] + x) \<and>
         tensor_data s' p3 ! (b * prod_list [2] + x) =
           tensor_data example_world example_spans ! ((b * 3 + j) * prod_list [2] + x))) \<and>
   (\<exists>!us. length us = 2 \<and> (\<forall>u \<in> set us. u < 3) \<and> ((3::nat) \<le> 21 \<longrightarrow> us ! 1 < 3 - 1) \<and>
      (\<forall>g. random_sample [0..<3] 2 (example_world\<lparr>rng := us @- g\<rparr>) =
         Some (Inr [0, 1], example_world\<lparr>rng := g\<rparr>)))"
proof -
  have tok: "example_tokens ''tokens'' = Some example_fields"
    "example_fields ''token_ids'' = Some example_spans"
    "example_fields ''mask'' = Some example_spans"
    "example_fields ''type_ids'' = Some example_spans"
    by (simp_all add: example_tokens_def example_fields_def)
  have v: "valid_tensor example_world example_spans"
    by (simp add: valid_tensor_def example_world_def example_spans_def numel_def)
  have sh: "shape example_spans = 2 # 3 # [2]" by (simp add: example_spans_def)
  have n: "(2::nat) \<le> 3" by simp
  have c: "draw_returns 3 (rng example_world)" by (simp add: draw_returns_def)
  have h: "(0::nat) < 3 \<and> (1::nat) < 3 \<and> (0::nat) \<noteq> 1 \<and> (if (3::nat) \<le> 21 then (2::nat) = 2 else 2 \<le> (2::nat))"
    by simp
  note T = sampler_shared_span_pair [of example_tokens example_fields example_spans example_spans
          example_spans example_world 2 3 "[2]" "[2]" "[2]", OF tok v v v sh sh sh n]
  note A = T[THEN conjunct1, unfolded if_P[OF c]]
  note U = T[THEN conjunct2, rule_format, of 0 1 2, OF h]
  show ?thesis by (intro conjI v sh c A U)
qed

subsection \<open>Structure and independence of the two results\<close>

lemma set_gather_subset: "set (gather B S R idx xs) \<subseteq> set xs"
  by (auto simp: gather_def dest: in_set_takeD in_set_dropD)

lemma gather_upt_nth:
  assumes "p < B * R" "k < S" "B * S * R \<le> N"
  shows "gather B S R [k] [0..<N] ! p = (p div R * S + k) * R + p mod R"
proof -
  have R: "0 < R" using assms(1) by (cases R) simp_all
  have b: "p div R < B" using assms(1) by (simp add: less_mult_imp_div_less)
  have x: "p mod R < R" using R by simp
  have le: "B * S * R \<le> length [0..<N]" using assms(3) by simp
  have "(p div R * S + k) * R + R \<le> length [0..<N]" by (rule slice_bound[OF b assms(2) le])
  then have in_range: "(p div R * S + k) * R + p mod R < N" using x by simp
  have "gather B S R [k] [0..<N] ! (p div R * R + p mod R) =
      [0..<N] ! ((p div R * S + k) * R + p mod R)"
    by (rule gather_single_nth[OF b x assms(2) le])
  then show ?thesis using in_range by simp
qed

lemma distinct_gather_single:
  assumes "k < S" "B * S * R \<le> N"
  shows "distinct (gather B S R [k] [0..<N])"
proof -
  have len: "length (gather B S R [k] [0..<N]) = B * R"
    using length_gather[of B S R "[0..<N]" "[k]"] assms by simp
  have inj: "p = q"
    if p: "p < B * R" and q: "q < B * R"
      and e: "gather B S R [k] [0..<N] ! p = gather B S R [k] [0..<N] ! q" for p q
  proof -
    have R: "0 < R" using p by (cases R) simp_all
    have S: "0 < S" using assms(1) by simp
    from e have eq: "(p div R * S + k) * R + p mod R = (q div R * S + k) * R + q mod R"
      by (simp only: gather_upt_nth[OF p assms] gather_upt_nth[OF q assms])
    have dp: "((p div R * S + k) * R + p mod R) div R = p div R * S + k" using R by simp
    have dq: "((q div R * S + k) * R + q mod R) div R = q div R * S + k" using R by simp
    have "p div R * S + k = q div R * S + k" by (metis dp dq eq)
    then have "p div R * S = q div R * S" by simp
    then have d: "p div R = q div R" using S by simp
    have mp: "((p div R * S + k) * R + p mod R) mod R = p mod R" using R by simp
    have mq: "((q div R * S + k) * R + q mod R) mod R = q mod R" using R by simp
    have m: "p mod R = q mod R" by (metis mp mq eq)
    show ?thesis using d m by (metis div_mult_mod_eq)
  qed
  show ?thesis unfolding distinct_conv_nth len using inj by blast
qed

lemma write_then_read:
  assumes "distinct cs" "length vs = length cs" "\<forall>c \<in> set cs. c < length st"
  shows "map ((!) (write_cells cs vs st)) cs = vs"
  using assms
proof (induction cs arbitrary: vs st)
  case Nil
  then show ?case by simp
next
  case (Cons c cs)
  then obtain v vs' where vs: "vs = v # vs'" by (cases vs) auto
  have w: "write_cells (c # cs) (v # vs') st = write_cells cs vs' (st[c := v])"
    by (simp add: write_cells_def)
  have "c \<notin> set cs" using Cons.prems(1) by simp
  then have "write_cells cs vs' (st[c := v]) ! c = st[c := v] ! c" by (rule write_cells_other)
  then have hd: "write_cells cs vs' (st[c := v]) ! c = v" using Cons.prems(3) by simp
  have "map ((!) (write_cells cs vs' (st[c := v]))) cs = vs'"
    using Cons.prems vs by (intro Cons.IH) simp_all
  then show ?case using hd by (simp add: vs w)
qed

lemma copy_into_effective:
  assumes "valid_tensor s t" "distinct (cells t)" "length vs = numel t"
  shows "tensor_data (snd (copy_into t vs s)) t = vs"
proof -
  have l: "length vs = length (cells t)" and a: "stor t < length (stors s)"
    and r: "\<forall>c \<in> set (cells t). c < length (stors s ! stor t)"
    using assms(1,3) by (simp_all add: valid_tensor_def)
  have "tensor_data (snd (copy_into t vs s)) t =
      map ((!) (write_cells (cells t) vs (stors s ! stor t))) (cells t)"
    using l a by (simp add: copy_into_def ret_def tensor_data_def read_cells_def)
  then show ?thesis using write_then_read[OF assms(2) l r] by simp
qed

lemma span_view_valid:
  assumes v: "span_view v k (length st) B r N" and k: "k < 2"
    and N: "N = B * 2 * prod_list r" and s': "stors s' = st @ D # rest" "length D = N"
  shows "valid_tensor s' v" "distinct (cells v)"
    "cells v = gather B 2 (prod_list r) [k] [0..<B * 2 * prod_list r]"
    "\<forall>p < B * prod_list r. cells v ! p = (p div prod_list r * 2 + k) * prod_list r + p mod prod_list r"
proof -
  have c: "cells v = gather B 2 (prod_list r) [k] [0..<N]" and a: "stor v = length st"
    and sh: "shape v = B # r"
    using v by (simp_all add: span_view_def)
  show "cells v = gather B 2 (prod_list r) [k] [0..<B * 2 * prod_list r]" using c N by simp
  have len: "length (cells v) = B * prod_list r"
    unfolding c using length_gather[of B 2 "prod_list r" "[0..<N]" "[k]"] k N by simp
  have "set (cells v) \<subseteq> set [0..<N]" unfolding c by (rule set_gather_subset)
  then have "\<forall>p \<in> set (cells v). p < N" by auto
  then show "valid_tensor s' v"
    using len a sh s' by (simp add: valid_tensor_def numel_def)
  show "distinct (cells v)" unfolding c using N by (intro distinct_gather_single k) simp
  show "\<forall>p < B * prod_list r. cells v ! p = (p div prod_list r * 2 + k) * prod_list r + p mod prod_list r"
    unfolding c using gather_upt_nth[of _ B "prod_list r" k 2 N] k N by simp
qed

lemma independent_views:
  assumes "stor a \<noteq> stor p \<or> set (cells a) \<inter> set (cells p) = {}"
  shows "\<forall>vs. tensor_data (snd (copy_into a vs s)) p = tensor_data s p \<and>
              tensor_data (snd (copy_into p vs s)) a = tensor_data s a"
proof -
  from assms have "stor p \<noteq> stor a \<or> set (cells p) \<inter> set (cells a) = {}" by auto
  then show ?thesis using assms by (simp add: copy_into_independent)
qed

lemma length_selected:
  assumes "valid_tensor s t" "shape t = B # n # r" "i < n" "j < n"
  shows "length (gather B n (prod_list r) [i, j] (tensor_data s t)) = B * 2 * prod_list r"
  using length_gather[of B n "prod_list r" "tensor_data s t" "[i, j]"]
    valid_tensor_length[OF assms(1,2)] assms(3,4) by simp

text \<open>
  C5. On well-formed input with at least two spans the anchors and the positives that
  the sampler returns are both dictionaries \<^verbatim>\<open>{"tokens": {"token_ids", "mask", "type_ids"}}\<close>.
  Every sub-field tensor is a valid tensor of the state reached, with the shape of its
  input without dimension 1 (so with the batch size of the input) and with pairwise
  different cells on a storage allocated by the call. An anchor and the positive of the
  same sub-field are views of one storage (the result of \<^verbatim>\<open>index_select\<close>): within every
  block of two spans the anchor reads the first and the positive the second, so they have
  no cell in common; tensors of different sub-fields are on different storages. An
  in-place write through any of the six tensors is read back through that tensor, and a
  write through an anchor leaves the data of every positive as it was, and conversely.
\<close>

theorem sampler_outputs_independent:
  fixes s :: "'a world"
  assumes tok: "tokens ''tokens'' = Some f" "f ''token_ids'' = Some tt" "f ''mask'' = Some tm"
      "f ''type_ids'' = Some ty"
    and valid: "valid_tensor s tt" "valid_tensor s tm" "valid_tensor s ty"
    and sh: "shape tt = B # n # rt" "shape tm = B # n # rm" "shape ty = B # n # ry"
    and n: "2 \<le> n"
  shows "if draw_returns n (rng s)
    then \<exists>a1 a2 a3 p1 p2 p3 s'.
      sample_anchor_positive_pairs tokens s =
        Some (Inr ([''tokens'' \<mapsto> [''token_ids'' \<mapsto> a1, ''mask'' \<mapsto> a2, ''type_ids'' \<mapsto> a3]],
                   [''tokens'' \<mapsto> [''token_ids'' \<mapsto> p1, ''mask'' \<mapsto> p2, ''type_ids'' \<mapsto> p3]]), s') \<and>
      (\<forall>x \<in> {a1, a2, a3, p1, p2, p3}.
         valid_tensor s' x \<and> distinct (cells x) \<and> length (stors s) \<le> stor x) \<and>
      shape a1 = B # rt \<and> shape p1 = B # rt \<and>
      shape a2 = B # rm \<and> shape p2 = B # rm \<and>
      shape a3 = B # ry \<and> shape p3 = B # ry \<and>
      stor a1 = stor p1 \<and> stor a2 = stor p2 \<and> stor a3 = stor p3 \<and>
      stor a1 \<noteq> stor a2 \<and> stor a1 \<noteq> stor a3 \<and> stor a2 \<noteq> stor a3 \<and>
      cells a1 = gather B 2 (prod_list rt) [0] [0..<B * 2 * prod_list rt] \<and>
      cells p1 = gather B 2 (prod_list rt) [1] [0..<B * 2 * prod_list rt] \<and>
      cells a2 = gather B 2 (prod_list rm) [0] [0..<B * 2 * prod_list rm] \<and>
      cells p2 = gather B 2 (prod_list rm) [1] [0..<B * 2 * prod_list rm] \<and>
      cells a3 = gather B 2 (prod_list ry) [0] [0..<B * 2 * prod_list ry] \<and>
      cells p3 = gather B 2 (prod_list ry) [1] [0..<B * 2 * prod_list ry] \<and>
      (\<forall>q < B * prod_list rt.
         cells a1 ! q = (q div prod_list rt * 2 + 0) * prod_list rt + q mod prod_list rt \<and>
         cells p1 ! q = (q div prod_list rt * 2 + 1) * prod_list rt + q mod prod_list rt) \<and>
      (\<forall>q < B * prod_list rm.
         cells a2 ! q = (q div prod_list rm * 2 + 0) * prod_list rm + q mod prod_list rm \<and>
         cells p2 ! q = (q div prod_list rm * 2 + 1) * prod_list rm + q mod prod_list rm) \<and>
      (\<forall>q < B * prod_list ry.
         cells a3 ! q = (q div prod_list ry * 2 + 0) * prod_list ry + q mod prod_list ry \<and>
         cells p3 ! q = (q div prod_list ry * 2 + 1) * prod_list ry + q mod prod_list ry) \<and>
      set (cells a1) \<inter> set (cells p1) = {} \<and>
      set (cells a2) \<inter> set (cells p2) = {} \<and>
      set (cells a3) \<inter> set (cells p3) = {} \<and>
      (\<forall>a \<in> {a1, a2, a3}. \<forall>p \<in> {p1, p2, p3}. \<forall>vs.
         tensor_data (snd (copy_into a vs s')) p = tensor_data s' p \<and>
         tensor_data (snd (copy_into p vs s')) a = tensor_data s' a) \<and>
      (\<forall>x \<in> {a1, a2, a3, p1, p2, p3}. \<forall>vs. length vs = numel x \<longrightarrow>
         tensor_data (snd (copy_into x vs s')) x = vs)
    else sample_anchor_positive_pairs tokens s = None"
proof (cases "draw_returns n (rng s)")
  case False
  have st: "stor tt < length (stors s)" "stor tm < length (stors s)" "stor ty < length (stors s)"
    using valid by (simp_all add: valid_tensor_def)
  from sample_run[where tokens = tokens and f = f and s = s, OF tok sh st n] False
  show ?thesis by simp
next
  case True
  have st: "stor tt < length (stors s)" "stor tm < length (stors s)" "stor ty < length (stors s)"
    using valid by (simp_all add: valid_tensor_def)
  define D where "D = (\<lambda>r t (i::nat) (j::nat). gather B n (prod_list r) [i, j] (tensor_data s t))"
  from sample_run[where tokens = tokens and f = f and s = s, OF tok sh st n] True
  obtain i j anchors positives s' a1 a2 a3 p1 p2 p3 where
    run: "sample_anchor_positive_pairs tokens s = Some (Inr (anchors, positives), s')"
    and ij: "i < n" "j < n"
    and fs: "field_set anchors a1 a2 a3" "field_set positives p1 p2 p3"
    and stors: "stors s' = stors s @ [D rt tt i j, D rm tm i j, D ry ty i j]"
    and v1: "span_view a1 0 (length (stors s)) B rt (length (D rt tt i j))"
      "span_view p1 1 (length (stors s)) B rt (length (D rt tt i j))"
    and v2: "span_view a2 0 (length (stors s) + 1) B rm (length (D rm tm i j))"
      "span_view p2 1 (length (stors s) + 1) B rm (length (D rm tm i j))"
    and v3: "span_view a3 0 (length (stors s) + 2) B ry (length (D ry ty i j))"
      "span_view p3 1 (length (stors s) + 2) B ry (length (D ry ty i j))"
    unfolding D_def by (simp only: if_True) blast
  have L: "length (D rt tt i j) = B * 2 * prod_list rt" "length (D rm tm i j) = B * 2 * prod_list rm"
    "length (D ry ty i j) = B * 2 * prod_list ry"
    unfolding D_def
    by (rule length_selected[OF valid(1) sh(1) ij] length_selected[OF valid(2) sh(2) ij]
        length_selected[OF valid(3) sh(3) ij])+
  have s1: "stors s' = stors s @ D rt tt i j # [D rm tm i j, D ry ty i j]" using stors by simp
  have s2: "stors s' = (stors s @ [D rt tt i j]) @ D rm tm i j # [D ry ty i j]" using stors by simp
  have s3: "stors s' = (stors s @ [D rt tt i j, D rm tm i j]) @ D ry ty i j # []" using stors by simp
  have v2': "span_view a2 0 (length (stors s @ [D rt tt i j])) B rm (length (D rm tm i j))"
    "span_view p2 1 (length (stors s @ [D rt tt i j])) B rm (length (D rm tm i j))"
    using v2 by simp_all
  have v3': "span_view a3 0 (length (stors s @ [D rt tt i j, D rm tm i j])) B ry (length (D ry ty i j))"
    "span_view p3 1 (length (stors s @ [D rt tt i j, D rm tm i j])) B ry (length (D ry ty i j))"
    using v3 by simp_all
  have k: "(0::nat) < 2" "(1::nat) < 2" by simp_all
  note A1 = span_view_valid[OF v1(1) k(1) L(1) s1 refl]
  note P1 = span_view_valid[OF v1(2) k(2) L(1) s1 refl]
  note A2 = span_view_valid[OF v2'(1) k(1) L(2) s2 refl]
  note P2 = span_view_valid[OF v2'(2) k(2) L(2) s2 refl]
  note A3 = span_view_valid[OF v3'(1) k(1) L(3) s3 refl]
  note P3 = span_view_valid[OF v3'(2) k(2) L(3) s3 refl]
  have run': "sample_anchor_positive_pairs tokens s =
        Some (Inr ([''tokens'' \<mapsto> [''token_ids'' \<mapsto> a1, ''mask'' \<mapsto> a2, ''type_ids'' \<mapsto> a3]],
                   [''tokens'' \<mapsto> [''token_ids'' \<mapsto> p1, ''mask'' \<mapsto> p2, ''type_ids'' \<mapsto> p3]]), s')"
    using run fs by (simp add: field_set_literal)
  note d = span_views_disjoint[OF v1] span_views_disjoint[OF v2] span_views_disjoint[OF v3]
  have shp: "shape a1 = B # rt" "shape p1 = B # rt" "shape a2 = B # rm" "shape p2 = B # rm"
    "shape a3 = B # ry" "shape p3 = B # ry"
    using v1 v2 v3 by (simp_all add: span_view_def)
  have sto: "stor a1 = length (stors s)" "stor p1 = length (stors s)"
    "stor a2 = length (stors s) + 1" "stor p2 = length (stors s) + 1"
    "stor a3 = length (stors s) + 2" "stor p3 = length (stors s) + 2"
    using v1 v2 v3 by (simp_all add: span_view_def)
  have val: "\<forall>x \<in> {a1, a2, a3, p1, p2, p3}.
         valid_tensor s' x \<and> distinct (cells x) \<and> length (stors s) \<le> stor x"
    using A1(1,2) P1(1,2) A2(1,2) P2(1,2) A3(1,2) P3(1,2) sto by simp
  have sts: "stor a1 = stor p1" "stor a2 = stor p2" "stor a3 = stor p3"
    "stor a1 \<noteq> stor a2" "stor a1 \<noteq> stor a3" "stor a2 \<noteq> stor a3"
    using sto by simp_all
  have c1: "\<forall>q < B * prod_list rt.
         cells a1 ! q = (q div prod_list rt * 2 + 0) * prod_list rt + q mod prod_list rt \<and>
         cells p1 ! q = (q div prod_list rt * 2 + 1) * prod_list rt + q mod prod_list rt"
    using A1(4) P1(4) by blast
  have c2: "\<forall>q < B * prod_list rm.
         cells a2 ! q = (q div prod_list rm * 2 + 0) * prod_list rm + q mod prod_list rm \<and>
         cells p2 ! q = (q div prod_list rm * 2 + 1) * prod_list rm + q mod prod_list rm"
    using A2(4) P2(4) by blast
  have c3: "\<forall>q < B * prod_list ry.
         cells a3 ! q = (q div prod_list ry * 2 + 0) * prod_list ry + q mod prod_list ry \<and>
         cells p3 ! q = (q div prod_list ry * 2 + 1) * prod_list ry + q mod prod_list ry"
    using A3(4) P3(4) by blast
  have ind: "\<forall>a \<in> {a1, a2, a3}. \<forall>p \<in> {p1, p2, p3}. \<forall>vs.
         tensor_data (snd (copy_into a vs s')) p = tensor_data s' p \<and>
         tensor_data (snd (copy_into p vs s')) a = tensor_data s' a"
  proof (intro ballI)
    fix a p assume "a \<in> {a1, a2, a3}" "p \<in> {p1, p2, p3}"
    then have "stor a \<noteq> stor p \<or> set (cells a) \<inter> set (cells p) = {}"
      using d sto by auto
    then show "\<forall>vs. tensor_data (snd (copy_into a vs s')) p = tensor_data s' p \<and>
         tensor_data (snd (copy_into p vs s')) a = tensor_data s' a"
      by (rule independent_views)
  qed
  have eff: "\<forall>x \<in> {a1, a2, a3, p1, p2, p3}. \<forall>vs. length vs = numel x \<longrightarrow>
         tensor_data (snd (copy_into x vs s')) x = vs"
    using val by (auto intro: copy_into_effective)
  have "\<exists>a1 a2 a3 p1 p2 p3 s'.
      sample_anchor_positive_pairs tokens s =
        Some (Inr ([''tokens'' \<mapsto> [''token_ids'' \<mapsto> a1, ''mask'' \<mapsto> a2, ''type_ids'' \<mapsto> a3]],
                   [''tokens'' \<mapsto> [''token_ids'' \<mapsto> p1, ''mask'' \<mapsto> p2, ''type_ids'' \<mapsto> p3]]), s') \<and>
      (\<forall>x \<in> {a1, a2, a3, p1, p2, p3}.
         valid_tensor s' x \<and> distinct (cells x) \<and> length (stors s) \<le> stor x) \<and>
      shape a1 = B # rt \<and> shape p1 = B # rt \<and>
      shape a2 = B # rm \<and> shape p2 = B # rm \<and>
      shape a3 = B # ry \<and> shape p3 = B # ry \<and>
      stor a1 = stor p1 \<and> stor a2 = stor p2 \<and> stor a3 = stor p3 \<and>
      stor a1 \<noteq> stor a2 \<and> stor a1 \<noteq> stor a3 \<and> stor a2 \<noteq> stor a3 \<and>
      cells a1 = gather B 2 (prod_list rt) [0] [0..<B * 2 * prod_list rt] \<and>
      cells p1 = gather B 2 (prod_list rt) [1] [0..<B * 2 * prod_list rt] \<and>
      cells a2 = gather B 2 (prod_list rm) [0] [0..<B * 2 * prod_list rm] \<and>
      cells p2 = gather B 2 (prod_list rm) [1] [0..<B * 2 * prod_list rm] \<and>
      cells a3 = gather B 2 (prod_list ry) [0] [0..<B * 2 * prod_list ry] \<and>
      cells p3 = gather B 2 (prod_list ry) [1] [0..<B * 2 * prod_list ry] \<and>
      (\<forall>q < B * prod_list rt.
         cells a1 ! q = (q div prod_list rt * 2 + 0) * prod_list rt + q mod prod_list rt \<and>
         cells p1 ! q = (q div prod_list rt * 2 + 1) * prod_list rt + q mod prod_list rt) \<and>
      (\<forall>q < B * prod_list rm.
         cells a2 ! q = (q div prod_list rm * 2 + 0) * prod_list rm + q mod prod_list rm \<and>
         cells p2 ! q = (q div prod_list rm * 2 + 1) * prod_list rm + q mod prod_list rm) \<and>
      (\<forall>q < B * prod_list ry.
         cells a3 ! q = (q div prod_list ry * 2 + 0) * prod_list ry + q mod prod_list ry \<and>
         cells p3 ! q = (q div prod_list ry * 2 + 1) * prod_list ry + q mod prod_list ry) \<and>
      set (cells a1) \<inter> set (cells p1) = {} \<and>
      set (cells a2) \<inter> set (cells p2) = {} \<and>
      set (cells a3) \<inter> set (cells p3) = {} \<and>
      (\<forall>a \<in> {a1, a2, a3}. \<forall>p \<in> {p1, p2, p3}. \<forall>vs.
         tensor_data (snd (copy_into a vs s')) p = tensor_data s' p \<and>
         tensor_data (snd (copy_into p vs s')) a = tensor_data s' a) \<and>
      (\<forall>x \<in> {a1, a2, a3, p1, p2, p3}. \<forall>vs. length vs = numel x \<longrightarrow>
         tensor_data (snd (copy_into x vs s')) x = vs)"
    apply (rule exI[of _ a1], rule exI[of _ a2], rule exI[of _ a3])
    apply (rule exI[of _ p1], rule exI[of _ p2], rule exI[of _ p3], rule exI[of _ s'])
    using run' val shp sts A1(3) P1(3) A2(3) P2(3) A3(3) P3(3) c1 c2 c3 d ind eff
    apply (intro conjI)
                        apply assumption+
    done
  then show ?thesis using True by simp
qed

theorem sampler_outputs_independent_witness:
  "valid_tensor example_world example_spans \<and> shape example_spans = 2 # 3 # [2] \<and>
   draw_returns 3 (rng example_world) \<and>
   gather 2 2 (prod_list [2]) [0] [0..<2 * 2 * prod_list [2]] = [0, 1, 4, 5] \<and>
   gather 2 2 (prod_list [2]) [1] [0..<2 * 2 * prod_list [2]] = [2, 3, 6, 7] \<and>
   (\<exists>a1 a2 a3 p1 p2 p3 s'.
      sample_anchor_positive_pairs example_tokens example_world =
        Some (Inr ([''tokens'' \<mapsto> [''token_ids'' \<mapsto> a1, ''mask'' \<mapsto> a2, ''type_ids'' \<mapsto> a3]],
                   [''tokens'' \<mapsto> [''token_ids'' \<mapsto> p1, ''mask'' \<mapsto> p2, ''type_ids'' \<mapsto> p3]]), s') \<and>
      (\<forall>x \<in> {a1, a2, a3, p1, p2, p3}.
         valid_tensor s' x \<and> distinct (cells x) \<and> length (stors example_world) \<le> stor x) \<and>
      shape a1 = 2 # [2] \<and> shape p1 = 2 # [2] \<and>
      shape a2 = 2 # [2] \<and> shape p2 = 2 # [2] \<and>
      shape a3 = 2 # [2] \<and> shape p3 = 2 # [2] \<and>
      stor a1 = stor p1 \<and> stor a2 = stor p2 \<and> stor a3 = stor p3 \<and>
      stor a1 \<noteq> stor a2 \<and> stor a1 \<noteq> stor a3 \<and> stor a2 \<noteq> stor a3 \<and>
      cells a1 = gather 2 2 (prod_list [2]) [0] [0..<2 * 2 * prod_list [2]] \<and>
      cells p1 = gather 2 2 (prod_list [2]) [1] [0..<2 * 2 * prod_list [2]] \<and>
      cells a2 = gather 2 2 (prod_list [2]) [0] [0..<2 * 2 * prod_list [2]] \<and>
      cells p2 = gather 2 2 (prod_list [2]) [1] [0..<2 * 2 * prod_list [2]] \<and>
      cells a3 = gather 2 2 (prod_list [2]) [0] [0..<2 * 2 * prod_list [2]] \<and>
      cells p3 = gather 2 2 (prod_list [2]) [1] [0..<2 * 2 * prod_list [2]] \<and>
      (\<forall>q < 2 * prod_list [2].
         cells a1 ! q = (q div prod_list [2] * 2 + 0) * prod_list [2] + q mod prod_list [2] \<and>
         cells p1 ! q = (q div prod_list [2] * 2 + 1) * prod_list [2] + q mod prod_list [2]) \<and>
      (\<forall>q < 2 * prod_list [2].
         cells a2 ! q = (q div prod_list [2] * 2 + 0) * prod_list [2] + q mod prod_list [2] \<and>
         cells p2 ! q = (q div prod_list [2] * 2 + 1) * prod_list [2] + q mod prod_list [2]) \<and>
      (\<forall>q < 2 * prod_list [2].
         cells a3 ! q = (q div prod_list [2] * 2 + 0) * prod_list [2] + q mod prod_list [2] \<and>
         cells p3 ! q = (q div prod_list [2] * 2 + 1) * prod_list [2] + q mod prod_list [2]) \<and>
      set (cells a1) \<inter> set (cells p1) = {} \<and>
      set (cells a2) \<inter> set (cells p2) = {} \<and>
      set (cells a3) \<inter> set (cells p3) = {} \<and>
      (\<forall>a \<in> {a1, a2, a3}. \<forall>p \<in> {p1, p2, p3}. \<forall>vs.
         tensor_data (snd (copy_into a vs s')) p = tensor_data s' p \<and>
         tensor_data (snd (copy_into p vs s')) a = tensor_data s' a) \<and>
      (\<forall>x \<in> {a1, a2, a3, p1, p2, p3}. \<forall>vs. length vs = numel x \<longrightarrow>
         tensor_data (snd (copy_into x vs s')) x = vs))"
proof -
  have tok: "example_tokens ''tokens'' = Some example_fields"
    "example_fields ''token_ids'' = Some example_spans"
    "example_fields ''mask'' = Some example_spans"
    "example_fields ''type_ids'' = Some example_spans"
    by (simp_all add: example_tokens_def example_fields_def)
  have v: "valid_tensor example_world example_spans"
    by (simp add: valid_tensor_def example_world_def example_spans_def numel_def)
  have sh: "shape example_spans = 2 # 3 # [2]" by (simp add: example_spans_def)
  have n: "(2::nat) \<le> 3" by simp
  have c: "draw_returns 3 (rng example_world)" by (simp add: draw_returns_def)
  have u: "[0..<8] = [0, 1, 2, 3, 4, 5, 6, 7]" "[0..<2] = [0, Suc 0]" by (simp_all add: upt_rec)
  have g0: "gather 2 2 (prod_list [2]) [0] [0..<2 * 2 * prod_list [2]] = [0, 1, 4, 5]"
    by (simp add: gather_def u)
  have g1: "gather 2 2 (prod_list [2]) [1] [0..<2 * 2 * prod_list [2]] = [2, 3, 6, 7]"
    by (simp add: gather_def u)
  note T = sampler_outputs_independent [of example_tokens example_fields example_spans example_spans
          example_spans example_world 2 3 "[2]" "[2]" "[2]", OF tok v v v sh sh sh n]
  note A = T[unfolded if_P[OF c]]
  show ?thesis by (intro conjI v sh c g0 g1 A)
qed

subsection \<open>What a successful run of the sampler looked up and built\<close>

lemma seq_InrE:
  assumes "seq m k s = (Inr v, s')"
  obtains x s1 where "m s = (Inr x, s1)" "k x s1 = (Inr v, s')"
  using assms by (auto simp: seq_def split: prod.splits sum.splits)

lemma getitem_InrD: "getitem d key s = (Inr x, s1) \<Longrightarrow> d key = Some x \<and> s1 = s"
  by (auto simp: getitem_def ret_def throw_def split: option.splits)

lemma ret_InrD: "ret v s = (Inr x, s1) \<Longrightarrow> x = v \<and> s1 = s"
  by (simp add: ret_def)

lemma selected_success_inversion:
  assumes "selected_pairs tokens index s = (Inr (anchors, positives), s')"
  shows "\<exists>f tt tm ty a1 a2 a3 p1 p2 p3.
    tokens ''tokens'' = Some f \<and> f ''token_ids'' = Some tt \<and> f ''mask'' = Some tm \<and>
    f ''type_ids'' = Some ty \<and>
    anchors = [''tokens'' \<mapsto> [''token_ids'' \<mapsto> a1, ''mask'' \<mapsto> a2, ''type_ids'' \<mapsto> a3]] \<and>
    positives = [''tokens'' \<mapsto> [''token_ids'' \<mapsto> p1, ''mask'' \<mapsto> p2, ''type_ids'' \<mapsto> p3]]"
  using assms unfolding selected_pairs_def
  apply (elim seq_InrE)
  apply (drule getitem_InrD)+
  apply (clarsimp split: prod.splits)
  apply (elim seq_InrE)
  apply (clarsimp split: prod.splits)
  apply (elim seq_InrE)
  apply (clarsimp split: prod.splits)
  apply (elim seq_InrE)
  apply (drule ret_InrD)
  apply blast
  done

lemma sample_cases:
  "sample_anchor_positive_pairs tokens s =
    (case tokens ''tokens'' of
       None \<Rightarrow> Some (Inl KeyError, s)
     | Some f \<Rightarrow>
         (case f ''token_ids'' of
            None \<Rightarrow> Some (Inl KeyError, s)
          | Some t \<Rightarrow>
              if length (shape t) \<le> 1 then Some (Inl IndexError, s)
              else
                (case random_sample [0..<shape t ! 1] 2 s of
                   None \<Rightarrow> None
                 | Some (Inl e, s1) \<Rightarrow> Some (Inl e, s1)
                 | Some (Inr index, s1) \<Rightarrow> Some (selected_pairs tokens index s1))))"
  by (simp add: sample_anchor_positive_pairs_def seq_partial_def returning_def getitem_step
      tensor_size_def ret_def throw_def split: option.splits sum.splits prod.splits)

lemma sample_success_inversion:
  assumes "sample_anchor_positive_pairs tokens s = Some (Inr (anchors, positives), s')"
  shows "\<exists>f tt tm ty a1 a2 a3 p1 p2 p3.
    tokens ''tokens'' = Some f \<and> f ''token_ids'' = Some tt \<and> f ''mask'' = Some tm \<and>
    f ''type_ids'' = Some ty \<and>
    anchors = [''tokens'' \<mapsto> [''token_ids'' \<mapsto> a1, ''mask'' \<mapsto> a2, ''type_ids'' \<mapsto> a3]] \<and>
    positives = [''tokens'' \<mapsto> [''token_ids'' \<mapsto> p1, ''mask'' \<mapsto> p2, ''type_ids'' \<mapsto> p3]]"
proof -
  from assms obtain index s1 where
    "selected_pairs tokens index s1 = (Inr (anchors, positives), s')"
    unfolding sample_cases by (auto split: option.splits sum.splits prod.splits if_splits)
  then show ?thesis by (rule selected_success_inversion)
qed

subsection \<open>The sampler allocates only\<close>

lemma extends_refl: "extends s s"
  unfolding extends_def by (auto intro: exI[of _ 0])

lemma extends_trans:
  assumes "extends s s1" "extends s1 s2"
  shows "extends s s2"
proof -
  from assms obtain k l where "rng s1 = sdrop k (rng s)" "rng s2 = sdrop l (rng s1)"
    by (auto simp: extends_def)
  then have "rng s2 = sdrop (k + l) (rng s)" by simp
  then show ?thesis using assms unfolding extends_def by (auto intro: prefix_order.trans)
qed

lemma ao_ret: "allocates_only (ret v)"
  by (simp add: allocates_only_def ret_def extends_refl)

lemma ao_throw: "allocates_only (throw e)"
  by (simp add: allocates_only_def throw_def extends_refl)

lemma ao_seq:
  assumes "allocates_only m" "\<And>v. allocates_only (k v)"
  shows "allocates_only (seq m k)"
  unfolding allocates_only_def
proof
  fix s
  obtain r s1 where m: "m s = (r, s1)" by (cases "m s")
  have 1: "extends s s1" using assms(1) m by (auto simp: allocates_only_def dest: spec[of _ s])
  show "extends s (snd (seq m k s))"
  proof (cases r)
    case (Inl e)
    then show ?thesis using m 1 by (simp add: seq_def)
  next
    case (Inr v)
    have "extends s1 (snd (k v s1))" using assms(2)[of v] by (simp add: allocates_only_def)
    then show ?thesis using m Inr 1 by (auto simp: seq_def intro: extends_trans)
  qed
qed

lemma ao_case_prod:
  assumes "\<And>a b. allocates_only (k a b)"
  shows "allocates_only (case p of (a, b) \<Rightarrow> k a b)"
  using assms by (cases p) simp

lemma ao_getitem: "allocates_only (getitem d key)"
  by (simp add: getitem_def ao_ret ao_throw split: option.splits)

lemma ao_tensor_size: "allocates_only (tensor_size t d)"
  by (simp add: tensor_size_def ao_ret ao_throw)

lemma ao_unpack2: "allocates_only (unpack2 xs)"
  by (simp add: unpack2_def ao_ret ao_throw split: list.splits)

lemma snd_sample_pool: "snd (sample_pool k m pool g) = sdrop k g"
  by (induction k arbitrary: m pool g) (simp_all add: Let_def split_beta)

lemma sample_set_advances:
  "sample_set k n population selected g = Some (xs, g') \<Longrightarrow> \<exists>d. g' = sdrop d g"
proof (induction k arbitrary: selected g xs g')
  case 0
  then show ?case by (auto intro: exI[of _ 0])
next
  case (Suc k)
  from Suc.prems obtain j g1 ys where
    dr: "draw_unselected n selected g = Some (j, g1)"
    and rest: "sample_set k n population (insert j selected) g1 = Some (ys, g')"
    by (auto split: option.splits)
  from draw_unselected_SomeD[OF dr] obtain m where "g1 = sdrop (Suc m) g" by blast
  moreover from Suc.IH[OF rest] obtain d where "g' = sdrop d g1" by blast
  ultimately have "g' = sdrop (Suc m + d) g" by simp
  then show ?case by blast
qed

lemma random_sample_extends:
  fixes s :: "'a world"
  assumes "random_sample population k s = Some (r, s')"
  shows "extends s s'"
proof (cases "length population < k")
  case True
  then show ?thesis using assms by (auto simp: random_sample_def throw_def extends_refl Let_def)
next
  case False
  show ?thesis
  proof (cases "length population \<le> setsize k")
    case True
    then have "s' = s\<lparr>rng := snd (sample_pool k (length population) population (rng s))\<rparr>"
      using assms False by (auto simp: random_sample_def ret_def split_beta Let_def)
    then show ?thesis by (auto simp: extends_def snd_sample_pool)
  next
    case F: False
    then obtain xs g' where
      "sample_set k (length population) population {} (rng s) = Some (xs, g')" "s' = s\<lparr>rng := g'\<rparr>"
      using assms False by (auto simp: random_sample_def ret_def Let_def split: option.splits)
    then show ?thesis using sample_set_advances[of k "length population" population "{}" "rng s" xs g']
      by (auto simp: extends_def)
  qed
qed

lemma ao_new_tensor: "allocates_only (new_tensor xs sh hs)"
  by (auto simp: allocates_only_def new_tensor_def extends_def intro: exI[of _ 0])

lemma ao_new_view: "allocates_only (new_view t cs sh hs)"
  by (auto simp: allocates_only_def new_view_def extends_def intro: exI[of _ 0])

lemma ao_index_select: "allocates_only (index_select t d idx)"
  by (auto simp: allocates_only_def index_select_def new_tensor_def throw_def extends_def
      intro: exI[of _ 0])

lemma ao_narrow: "allocates_only (narrow t d start len)"
  by (auto simp: allocates_only_def narrow_def new_view_def extends_def intro: exI[of _ 0])

lemma ao_squeeze: "allocates_only (squeeze t d)"
  by (auto simp: allocates_only_def squeeze_def new_view_def throw_def extends_def intro: exI[of _ 0])

lemma ao_map_prog:
  assumes "\<And>x. allocates_only (f x)"
  shows "allocates_only (map_prog f xs)"
  by (induction xs) (auto intro!: ao_ret ao_seq assms)

lemma ao_chunk: "allocates_only (chunk t n d)"
  by (simp add: chunk_def Let_def ao_throw ao_map_prog ao_narrow)

lemma ao_selected_pairs: "allocates_only (selected_pairs tokens index)"
  unfolding selected_pairs_def
  by (intro ao_seq ao_case_prod ao_getitem ao_index_select
      ao_chunk ao_unpack2 ao_squeeze ao_ret)

lemma sample_extends:
  fixes s :: "'a world"
  assumes "sample_anchor_positive_pairs tokens s = Some (r, s')"
  shows "extends s s'"
proof -
  have sel: "extends s1 (snd (selected_pairs tokens index s1))" for index and s1 :: "'a world"
    by (rule ao_selected_pairs[unfolded allocates_only_def, rule_format])
  from assms consider "s' = s"
    | e s1 where "random_sample [0..<shape (the (the (tokens ''tokens'') ''token_ids'')) ! 1] 2 s =
          Some (Inl e, s1)" "s' = s1"
    | index s1 where "random_sample [0..<shape (the (the (tokens ''tokens'') ''token_ids'')) ! 1] 2 s =
          Some (Inr index, s1)" "s' = snd (selected_pairs tokens index s1)"
    unfolding sample_cases by (auto split: option.splits sum.splits prod.splits if_splits)
  then show ?thesis
  proof cases
    case 1
    then show ?thesis by (simp add: extends_refl)
  next
    case 2
    then show ?thesis using random_sample_extends by blast
  next
    case 3
    from random_sample_extends[OF 3(1)] sel[of s1 index] 3(2) show ?thesis
      by (auto intro: extends_trans)
  qed
qed

lemma read_cells_prefix:
  assumes "prefix st st'" "stor t < length st"
  shows "read_cells st' t = read_cells st t"
proof -
  from assms(1) obtain ys where "st' = st @ ys" by (auto simp: prefix_def)
  then show ?thesis using assms(2) by (simp add: read_cells_append)
qed

text \<open>
  C7. Whatever the input and however the call ends (with a result or with an exception),
  the sampler writes to no storage that existed before the call: the storages afterwards
  are the storages before, followed by newly allocated ones, so every tensor that existed
  before (every input sub-field tensor in particular) holds the same values. The autograd
  mode is unchanged, and the random source has only advanced. A call that does not end
  is one whose draw among 22 or more spans redraws for ever, every draw of the random
  source being the same modulo the number of spans: it has allocated and written nothing.
  The input dictionary is a value of the model and is not an output of the function.
\<close>

theorem sampler_leaves_inputs:
  fixes s :: "'a world"
  shows "(\<forall>r s'. sample_anchor_positive_pairs tokens s = Some (r, s') \<longrightarrow>
     prefix (stors s) (stors s') \<and> grad_enabled s' = grad_enabled s \<and>
     (\<exists>k. rng s' = sdrop k (rng s)) \<and>
     (\<forall>t. stor t < length (stors s) \<longrightarrow> tensor_data s' t = tensor_data s t)) \<and>
   (sample_anchor_positive_pairs tokens s = None \<longrightarrow>
     (\<exists>f tt. tokens ''tokens'' = Some f \<and> f ''token_ids'' = Some tt \<and>
        1 < length (shape tt) \<and> 21 < shape tt ! 1 \<and>
        random_sample [0..<shape tt ! 1] 2 s = None \<and>
        (\<forall>m. rng s !! m mod shape tt ! 1 = shd (rng s) mod shape tt ! 1)))"
proof (rule conjI; intro allI impI)
  fix r and s' :: "'a world"
  assume "sample_anchor_positive_pairs tokens s = Some (r, s')"
  then have e: "extends s s'" by (rule sample_extends)
  then have "prefix (stors s) (stors s')" by (simp add: extends_def)
  then have "\<forall>t. stor t < length (stors s) \<longrightarrow> tensor_data s' t = tensor_data s t"
    by (simp add: tensor_data_def read_cells_prefix)
  then show "prefix (stors s) (stors s') \<and> grad_enabled s' = grad_enabled s \<and>
     (\<exists>k. rng s' = sdrop k (rng s)) \<and>
     (\<forall>t. stor t < length (stors s) \<longrightarrow> tensor_data s' t = tensor_data s t)"
    using e by (simp add: extends_def)
next
  assume N: "sample_anchor_positive_pairs tokens s = None"
  then obtain f tt where tok: "tokens ''tokens'' = Some f" "f ''token_ids'' = Some tt"
    and l: "1 < length (shape tt)" and rs: "random_sample [0..<shape tt ! 1] 2 s = None"
    unfolding sample_cases by (auto split: option.splits sum.splits prod.splits if_splits)
  have n: "2 \<le> shape tt ! 1"
  proof (rule ccontr)
    assume "\<not> 2 \<le> shape tt ! 1"
    then have "shape tt ! 1 < 2" by simp
    from random_sample_too_few[OF this, of s] rs show False by simp
  qed
  have nd: "\<not> draw_returns (shape tt ! 1) (rng s)"
  proof
    assume "draw_returns (shape tt ! 1) (rng s)"
    then show False using draw_two[OF n, of s] rs by auto
  qed
  then have big: "21 < shape tt ! 1"
    and same: "\<forall>m. rng s !! Suc m mod shape tt ! 1 = shd (rng s) mod shape tt ! 1"
    by (simp_all add: draw_returns_def)
  have "rng s !! m mod shape tt ! 1 = shd (rng s) mod shape tt ! 1" for m
    using same by (cases m) simp_all
  then show "\<exists>f tt. tokens ''tokens'' = Some f \<and> f ''token_ids'' = Some tt \<and>
        1 < length (shape tt) \<and> 21 < shape tt ! 1 \<and>
        random_sample [0..<shape tt ! 1] 2 s = None \<and>
        (\<forall>m. rng s !! m mod shape tt ! 1 = shd (rng s) mod shape tt ! 1)"
    using tok l big rs by blast
qed

lemma example_run:
  "\<exists>r s'. sample_anchor_positive_pairs example_tokens example_world = Some (r, s')"
proof -
  have tok: "example_tokens ''tokens'' = Some example_fields"
    "example_fields ''token_ids'' = Some example_spans"
    "example_fields ''mask'' = Some example_spans"
    "example_fields ''type_ids'' = Some example_spans"
    by (simp_all add: example_tokens_def example_fields_def)
  have sh: "shape example_spans = 2 # 3 # [2]" by (simp add: example_spans_def)
  have st: "stor example_spans < length (stors example_world)"
    by (simp add: example_spans_def example_world_def)
  have c: "draw_returns 3 (rng example_world)" by (simp add: draw_returns_def)
  have n: "(2::nat) \<le> 3" by simp
  from sample_run[where tokens = example_tokens and f = example_fields and s = example_world,
      OF tok sh sh sh st st st n, unfolded if_P[OF c]]
  show ?thesis by blast
qed

theorem sampler_leaves_inputs_witness:
  "stor example_spans < length (stors example_world) \<and>
   (\<exists>r s'. sample_anchor_positive_pairs example_tokens example_world = Some (r, s') \<and>
      prefix (stors example_world) (stors s') \<and>
      tensor_data s' example_spans = tensor_data example_world example_spans)"
proof -
  have st: "stor example_spans < length (stors example_world)"
    by (simp add: example_spans_def example_world_def)
  from example_run obtain r s' where
    run: "sample_anchor_positive_pairs example_tokens example_world = Some (r, s')" by blast
  from sampler_leaves_inputs [of example_tokens example_world, THEN conjunct1, rule_format, OF run] st
  have "prefix (stors example_world) (stors s') \<and>
      tensor_data s' example_spans = tensor_data example_world example_spans" by blast
  then show ?thesis using st run by blast
qed

subsection \<open>Missing keys and extra keys\<close>

lemma draw_in_range:
  fixes s :: "'a world"
  assumes "random_sample [0..<n] 2 s = Some (Inr index, s1)"
  shows "2 \<le> n \<and> (\<forall>i \<in> set index. i < n)"
proof (cases "n < 2")
  case True
  then show ?thesis using assms by (simp add: random_sample_too_few)
next
  case False
  then have n: "2 \<le> n" by simp
  show ?thesis
  proof (cases "draw_returns n (rng s)")
    case True
    then show ?thesis using draw_two[OF n, of s] assms n by auto
  next
    case False
    then show ?thesis using draw_two[OF n, of s] assms by simp
  qed
qed

lemma selected_missing_mask:
  fixes s :: "'a world"
  assumes "tokens ''tokens'' = Some f" "f ''token_ids'' = Some tt"
    and "1 < length (shape tt)" "\<forall>i \<in> set index. i < shape tt ! 1" "f ''mask'' = None"
  shows "fst (selected_pairs tokens index s) = Inl KeyError"
  using assms by (simp add: selected_pairs_def getitem_step index_select_step)

lemma selected_mask_no_dimension:
  fixes s :: "'a world"
  assumes "tokens ''tokens'' = Some f" "f ''token_ids'' = Some tt"
    and "1 < length (shape tt)" "\<forall>i \<in> set index. i < shape tt ! 1"
    and "f ''mask'' = Some tm" "length (shape tm) \<le> 1"
  shows "fst (selected_pairs tokens index s) = Inl IndexError"
  using assms
  by (simp add: selected_pairs_def getitem_step index_select_step)
     (simp add: seq_def index_select_def throw_def)

lemma selected_mask_out_of_range:
  fixes s :: "'a world"
  assumes "tokens ''tokens'' = Some f" "f ''token_ids'' = Some tt"
    and "1 < length (shape tt)" "\<forall>i \<in> set index. i < shape tt ! 1"
    and "f ''mask'' = Some tm" "1 < length (shape tm)" "\<exists>i \<in> set index. shape tm ! 1 \<le> i"
  shows "fst (selected_pairs tokens index s) = Inl IndexError"
  using assms
  by (simp add: selected_pairs_def getitem_step index_select_step)
     (auto simp: seq_def index_select_def throw_def)

lemma selected_missing_type_ids:
  fixes s :: "'a world"
  assumes "tokens ''tokens'' = Some f" "f ''token_ids'' = Some tt"
    and "1 < length (shape tt)" "\<forall>i \<in> set index. i < shape tt ! 1"
    and "f ''mask'' = Some tm" "1 < length (shape tm)" "\<forall>i \<in> set index. i < shape tm ! 1"
    and "f ''type_ids'' = None"
  shows "fst (selected_pairs tokens index s) = Inl KeyError"
  using assms by (simp add: selected_pairs_def getitem_step index_select_step)

lemma sample_after_draw:
  fixes s :: "'a world"
  assumes "tokens ''tokens'' = Some f" "f ''token_ids'' = Some tt" "1 < length (shape tt)"
    and "random_sample [0..<shape tt ! 1] 2 s = Some (Inr index, sd)"
    and "fst (selected_pairs tokens index sd) = Inl e"
  shows "\<exists>s'. sample_anchor_positive_pairs tokens s = Some (Inl e, s')"
proof -
  have "sample_anchor_positive_pairs tokens s = Some (selected_pairs tokens index sd)"
    using assms(1-4) by (simp add: sample_cases)
  then show ?thesis using assms(5) by (cases "selected_pairs tokens index sd") auto
qed

lemma missing_key_no_result:
  assumes "tokens ''tokens'' = None \<or>
     (\<exists>f. tokens ''tokens'' = Some f \<and>
        (f ''token_ids'' = None \<or> f ''mask'' = None \<or> f ''type_ids'' = None))"
  shows "sample_anchor_positive_pairs tokens s \<noteq> Some (Inr v, s')"
proof
  assume "sample_anchor_positive_pairs tokens s = Some (Inr v, s')"
  then have "sample_anchor_positive_pairs tokens s = Some (Inr (fst v, snd v), s')" by simp
  from sample_success_inversion[OF this] assms show False by auto
qed

lemma after_draw_cases:
  fixes s :: "'a world"
  assumes tok: "tokens ''tokens'' = Some f" "f ''token_ids'' = Some tt"
    and l: "1 < length (shape tt)" and n: "2 \<le> shape tt ! 1"
    and c: "draw_returns (shape tt ! 1) (rng s)"
  shows "\<exists>i j s1. random_sample [0..<shape tt ! 1] 2 s = Some (Inr [i, j], s1) \<and>
     (f ''mask'' = None \<longrightarrow>
        (\<exists>s'. sample_anchor_positive_pairs tokens s = Some (Inl KeyError, s'))) \<and>
     (\<forall>tm. f ''mask'' = Some tm \<longrightarrow>
        (length (shape tm) \<le> 1 \<longrightarrow>
           (\<exists>s'. sample_anchor_positive_pairs tokens s = Some (Inl IndexError, s'))) \<and>
        (1 < length (shape tm) \<and> (shape tm ! 1 \<le> i \<or> shape tm ! 1 \<le> j) \<longrightarrow>
           (\<exists>s'. sample_anchor_positive_pairs tokens s = Some (Inl IndexError, s'))) \<and>
        (1 < length (shape tm) \<and> i < shape tm ! 1 \<and> j < shape tm ! 1 \<and> f ''type_ids'' = None \<longrightarrow>
           (\<exists>s'. sample_anchor_positive_pairs tokens s = Some (Inl KeyError, s'))))"
proof -
  from draw_two[OF n, of s] c obtain i j d where
    rs: "random_sample [0..<shape tt ! 1] 2 s = Some (Inr [i, j], s\<lparr>rng := sdrop d (rng s)\<rparr>)"
    and ij: "i < shape tt ! 1" "j < shape tt ! 1" by auto
  define s1 where "s1 = s\<lparr>rng := sdrop d (rng s)\<rparr>"
  have r: "\<forall>x \<in> set [i, j]. x < shape tt ! 1" using ij by simp
  note after = sample_after_draw[where tokens = tokens and f = f and tt = tt and s = s
      and index = "[i, j]" and sd = s1, OF tok l rs[folded s1_def]]
  note sel = tok l r
  have A: "\<exists>s'. sample_anchor_positive_pairs tokens s = Some (Inl KeyError, s')" if "f ''mask'' = None"
    by (rule after, rule selected_missing_mask[where tokens = tokens and f = f and tt = tt and index = "[i, j]" and s = s1, OF sel that])
  have B: "\<exists>s'. sample_anchor_positive_pairs tokens s = Some (Inl IndexError, s')"
    if "f ''mask'' = Some tm" "length (shape tm) \<le> 1" for tm
    by (rule after, rule selected_mask_no_dimension[where tokens = tokens and f = f and tt = tt and index = "[i, j]" and s = s1, OF sel that])
  have C: "\<exists>s'. sample_anchor_positive_pairs tokens s = Some (Inl IndexError, s')"
    if "f ''mask'' = Some tm" "1 < length (shape tm)" "shape tm ! 1 \<le> i \<or> shape tm ! 1 \<le> j" for tm
  proof -
    have "\<exists>x \<in> set [i, j]. shape tm ! 1 \<le> x" using that(3) by auto
    from selected_mask_out_of_range[where tokens = tokens and f = f and tt = tt and index = "[i, j]" and s = s1, OF sel that(1,2) this]
    show ?thesis by (rule after)
  qed
  have D: "\<exists>s'. sample_anchor_positive_pairs tokens s = Some (Inl KeyError, s')"
    if "f ''mask'' = Some tm" "1 < length (shape tm)" "i < shape tm ! 1" "j < shape tm ! 1"
      "f ''type_ids'' = None" for tm
  proof -
    have "\<forall>x \<in> set [i, j]. x < shape tm ! 1" using that(3,4) by simp
    from selected_missing_type_ids[where tokens = tokens and f = f and tt = tt and index = "[i, j]" and s = s1, OF sel that(1,2) this that(5)]
    show ?thesis by (rule after)
  qed
  show ?thesis
    apply (rule exI[of _ i], rule exI[of _ j], rule exI[of _ s1])
    using rs[folded s1_def] A B C D by blast
qed

text \<open>
  C10. The sampler looks up \<^verbatim>\<open>tokens\<close> and \<^verbatim>\<open>token_ids\<close> (line 36), then \<^verbatim>\<open>mask\<close>
  (line 40) and \<^verbatim>\<open>type_ids\<close> (line 41). A call on an input that lacks one of them returns
  no result. It ends with a KeyError when \<^verbatim>\<open>tokens\<close> or \<^verbatim>\<open>token_ids\<close> is absent; when
  \<^verbatim>\<open>mask\<close> is absent and the steps before its lookup succeed (the token-id tensor has a
  dimension 1 of size at least 2 and the draw returns); and when \<^verbatim>\<open>type_ids\<close> is absent
  and, in addition, the mask tensor has a dimension 1 that holds both drawn indices. When
  an earlier step fails, the call ends as that step does: an IndexError for a token-id or
  mask tensor without dimension 1 and for a drawn index outside dimension 1 of the mask
  tensor, a ValueError for fewer than two spans, no return when the draw does not return.
  A successful call returns two dictionaries with exactly the key \<^verbatim>\<open>tokens\<close> and the
  three sub-field keys, whatever else the input held.
\<close>

theorem sampler_reads_three_subfields:
  fixes s :: "'a world"
  shows
  "(tokens ''tokens'' = None \<longrightarrow> sample_anchor_positive_pairs tokens s = Some (Inl KeyError, s)) \<and>
   (\<forall>f. tokens ''tokens'' = Some f \<and> f ''token_ids'' = None \<longrightarrow>
      sample_anchor_positive_pairs tokens s = Some (Inl KeyError, s)) \<and>
   (\<forall>f tt. tokens ''tokens'' = Some f \<and> f ''token_ids'' = Some tt \<longrightarrow>
      (length (shape tt) \<le> 1 \<longrightarrow> sample_anchor_positive_pairs tokens s = Some (Inl IndexError, s)) \<and>
      (1 < length (shape tt) \<and> shape tt ! 1 < 2 \<longrightarrow>
         sample_anchor_positive_pairs tokens s = Some (Inl ValueError, s)) \<and>
      (1 < length (shape tt) \<and> 2 \<le> shape tt ! 1 \<and> \<not> draw_returns (shape tt ! 1) (rng s) \<longrightarrow>
         sample_anchor_positive_pairs tokens s = None) \<and>
      (1 < length (shape tt) \<and> 2 \<le> shape tt ! 1 \<and> draw_returns (shape tt ! 1) (rng s) \<longrightarrow>
         (\<exists>i j s1. random_sample [0..<shape tt ! 1] 2 s = Some (Inr [i, j], s1) \<and>
            (f ''mask'' = None \<longrightarrow>
               (\<exists>s'. sample_anchor_positive_pairs tokens s = Some (Inl KeyError, s'))) \<and>
            (\<forall>tm. f ''mask'' = Some tm \<longrightarrow>
               (length (shape tm) \<le> 1 \<longrightarrow>
                  (\<exists>s'. sample_anchor_positive_pairs tokens s = Some (Inl IndexError, s'))) \<and>
               (1 < length (shape tm) \<and> (shape tm ! 1 \<le> i \<or> shape tm ! 1 \<le> j) \<longrightarrow>
                  (\<exists>s'. sample_anchor_positive_pairs tokens s = Some (Inl IndexError, s'))) \<and>
               (1 < length (shape tm) \<and> i < shape tm ! 1 \<and> j < shape tm ! 1 \<and>
                f ''type_ids'' = None \<longrightarrow>
                  (\<exists>s'. sample_anchor_positive_pairs tokens s = Some (Inl KeyError, s'))))))) \<and>
   (tokens ''tokens'' = None \<or>
      (\<exists>f. tokens ''tokens'' = Some f \<and>
         (f ''token_ids'' = None \<or> f ''mask'' = None \<or> f ''type_ids'' = None)) \<longrightarrow>
      (\<forall>v s'. sample_anchor_positive_pairs tokens s \<noteq> Some (Inr v, s'))) \<and>
   (\<forall>anchors positives s'.
      sample_anchor_positive_pairs tokens s = Some (Inr (anchors, positives), s') \<longrightarrow>
      (\<exists>a1 a2 a3 p1 p2 p3.
         anchors = [''tokens'' \<mapsto> [''token_ids'' \<mapsto> a1, ''mask'' \<mapsto> a2, ''type_ids'' \<mapsto> a3]] \<and>
         positives = [''tokens'' \<mapsto> [''token_ids'' \<mapsto> p1, ''mask'' \<mapsto> p2, ''type_ids'' \<mapsto> p3]]))"
proof (intro conjI allI impI; (elim conjE)?)
  assume "tokens ''tokens'' = None"
  then show "sample_anchor_positive_pairs tokens s = Some (Inl KeyError, s)"
    by (rule sample_lookup_fails)
next
  fix f assume "tokens ''tokens'' = Some f" "f ''token_ids'' = None"
  then show "sample_anchor_positive_pairs tokens s = Some (Inl KeyError, s)"
    by (rule sample_lookup_fails)
next
  fix f tt assume "tokens ''tokens'' = Some f" "f ''token_ids'' = Some tt" "length (shape tt) \<le> 1"
  then show "sample_anchor_positive_pairs tokens s = Some (Inl IndexError, s)"
    by (rule sample_lookup_fails)
next
  fix f tt assume "tokens ''tokens'' = Some f" "f ''token_ids'' = Some tt"
    "1 < length (shape tt)" "shape tt ! 1 < 2"
  then show "sample_anchor_positive_pairs tokens s = Some (Inl ValueError, s)"
    by (simp add: sample_cases random_sample_too_few)
next
  fix f tt assume a: "tokens ''tokens'' = Some f" "f ''token_ids'' = Some tt"
    "1 < length (shape tt)" "2 \<le> shape tt ! 1" "\<not> draw_returns (shape tt ! 1) (rng s)"
  from draw_two[OF a(4), of s] a(5) have "random_sample [0..<shape tt ! 1] 2 s = None" by simp
  then show "sample_anchor_positive_pairs tokens s = None"
    using a(1,2,3) by (simp add: sample_cases)
next
  fix f tt assume a: "tokens ''tokens'' = Some f" "f ''token_ids'' = Some tt"
    "1 < length (shape tt)" "2 \<le> shape tt ! 1" "draw_returns (shape tt ! 1) (rng s)"
  show "\<exists>i j s1. random_sample [0..<shape tt ! 1] 2 s = Some (Inr [i, j], s1) \<and>
            (f ''mask'' = None \<longrightarrow>
               (\<exists>s'. sample_anchor_positive_pairs tokens s = Some (Inl KeyError, s'))) \<and>
            (\<forall>tm. f ''mask'' = Some tm \<longrightarrow>
               (length (shape tm) \<le> 1 \<longrightarrow>
                  (\<exists>s'. sample_anchor_positive_pairs tokens s = Some (Inl IndexError, s'))) \<and>
               (1 < length (shape tm) \<and> (shape tm ! 1 \<le> i \<or> shape tm ! 1 \<le> j) \<longrightarrow>
                  (\<exists>s'. sample_anchor_positive_pairs tokens s = Some (Inl IndexError, s'))) \<and>
               (1 < length (shape tm) \<and> i < shape tm ! 1 \<and> j < shape tm ! 1 \<and>
                f ''type_ids'' = None \<longrightarrow>
                  (\<exists>s'. sample_anchor_positive_pairs tokens s = Some (Inl KeyError, s'))))"
    by (rule after_draw_cases[where tokens = tokens and f = f and tt = tt and s = s, OF a])
next
  fix v s'
  assume "tokens ''tokens'' = None \<or>
      (\<exists>f. tokens ''tokens'' = Some f \<and>
         (f ''token_ids'' = None \<or> f ''mask'' = None \<or> f ''type_ids'' = None))"
  then show "sample_anchor_positive_pairs tokens s \<noteq> Some (Inr v, s')"
    by (rule missing_key_no_result)
next
  fix anchors positives s'
  assume "sample_anchor_positive_pairs tokens s = Some (Inr (anchors, positives), s')"
  from sample_success_inversion[OF this]
  show "\<exists>a1 a2 a3 p1 p2 p3.
         anchors = [''tokens'' \<mapsto> [''token_ids'' \<mapsto> a1, ''mask'' \<mapsto> a2, ''type_ids'' \<mapsto> a3]] \<and>
         positives = [''tokens'' \<mapsto> [''token_ids'' \<mapsto> p1, ''mask'' \<mapsto> p2, ''type_ids'' \<mapsto> p3]]"
    by blast
qed

lemma example_draw:
  "random_sample [0..<3] 2 example_world = Some (Inr [1, 0], example_world\<lparr>rng := sconst 0\<rparr>)"
  using random_sample_pool2[of 3 example_world] by (simp add: example_world_def)

theorem sampler_reads_three_subfields_witness:
  "[''token_ids'' \<mapsto> example_spans] ''mask'' = None \<and>
   1 < length (shape example_spans) \<and> 2 \<le> shape example_spans ! 1 \<and>
   draw_returns (shape example_spans ! 1) (rng example_world) \<and>
   (\<exists>s'. sample_anchor_positive_pairs [''tokens'' \<mapsto> [''token_ids'' \<mapsto> example_spans]] example_world =
      Some (Inl KeyError, s')) \<and>
   random_sample [0..<shape example_spans ! 1] 2 example_world =
     Some (Inr [1, 0], example_world\<lparr>rng := sconst 0\<rparr>) \<and>
   [''token_ids'' \<mapsto> example_spans, ''mask'' \<mapsto> example_two_spans] ''type_ids'' = None \<and>
   1 < length (shape example_two_spans) \<and>
   1 < shape example_two_spans ! 1 \<and> 0 < shape example_two_spans ! 1 \<and>
   (\<exists>s'. sample_anchor_positive_pairs
      [''tokens'' \<mapsto> [''token_ids'' \<mapsto> example_spans, ''mask'' \<mapsto> example_two_spans]] example_world =
      Some (Inl KeyError, s'))"
proof -
  have sh: "1 < length (shape example_spans)" "2 \<le> shape example_spans ! 1"
    "shape example_spans ! 1 = 3"
    by (simp_all add: example_spans_def)
  have c: "draw_returns (shape example_spans ! 1) (rng example_world)"
    unfolding sh(3) by (simp add: draw_returns_def)
  have d: "random_sample [0..<shape example_spans ! 1] 2 example_world =
     Some (Inr [1, 0], example_world\<lparr>rng := sconst 0\<rparr>)"
    using example_draw by (simp only: sh(3))
  have two: "1 < length (shape example_two_spans)" "1 < shape example_two_spans ! 1"
    "0 < shape example_two_spans ! 1"
    by (simp_all add: example_two_spans_def)
  let ?t1 = "[''tokens'' \<mapsto> [''token_ids'' \<mapsto> example_spans]]"
  let ?t2 = "[''tokens'' \<mapsto> [''token_ids'' \<mapsto> example_spans, ''mask'' \<mapsto> example_two_spans]]"
  have A: "\<exists>s'. sample_anchor_positive_pairs ?t1 example_world = Some (Inl KeyError, s')"
    using sampler_reads_three_subfields [of ?t1 example_world] sh(1,2) c by simp
  from sampler_reads_three_subfields [of ?t2 example_world] sh(1,2) c
  obtain i j s1 where
    r: "random_sample [0..<shape example_spans ! 1] 2 example_world = Some (Inr [i, j], s1)"
    and k: "1 < length (shape example_two_spans) \<and> i < shape example_two_spans ! 1 \<and>
      j < shape example_two_spans ! 1 \<longrightarrow>
      (\<exists>s'. sample_anchor_positive_pairs ?t2 example_world = Some (Inl KeyError, s'))"
    by auto
  from r d have "i = 1" "j = 0" by simp_all
  then have B: "\<exists>s'. sample_anchor_positive_pairs ?t2 example_world = Some (Inl KeyError, s')"
    using k two by simp
  show ?thesis using sh(1,2) c A d two B by simp
qed

text \<open>
  The lookup of \<^verbatim>\<open>mask\<close> comes after \<^verbatim>\<open>random.sample\<close>: with \<^verbatim>\<open>mask\<close> absent and a single
  candidate span the exception is the ValueError of the draw, not a KeyError.
\<close>

theorem missing_mask_one_span_counterexample:
  "[''token_ids'' \<mapsto> example_one_span] ''mask'' = None \<and>
   sample_anchor_positive_pairs [''tokens'' \<mapsto> [''token_ids'' \<mapsto> example_one_span]] example_world =
     Some (Inl ValueError, example_world) \<and>
   (\<forall>s'. sample_anchor_positive_pairs [''tokens'' \<mapsto> [''token_ids'' \<mapsto> example_one_span]] example_world \<noteq>
     Some (Inl KeyError, s'))"
  by (simp add: sample_cases random_sample_def throw_def Let_def example_one_span_def)

subsection \<open>The gatherer writes only to what it allocated\<close>

lemma keeps_ret: "Q v \<Longrightarrow> keeps S (ret v) Q"
  by (simp add: keeps_def ret_def)

lemma keeps_throw: "keeps S (throw e) Q"
  by (simp add: keeps_def throw_def)

lemma keeps_seq:
  assumes "keeps S m Q" "\<And>v. Q v \<Longrightarrow> keeps S (k v) R"
  shows "keeps S (seq m k) R"
  unfolding keeps_def
proof (intro allI impI)
  fix s :: "'a world"
  assume p: "prefix S (stors s)"
  obtain r s1 where m: "m s = (r, s1)" by (cases "m s")
  have 1: "prefix S (stors s1)" "\<forall>v. r = Inr v \<longrightarrow> Q v"
    using assms(1) p m by (auto simp: keeps_def)
  show "prefix S (stors (snd (seq m k s))) \<and> (\<forall>v. fst (seq m k s) = Inr v \<longrightarrow> R v)"
  proof (cases r)
    case (Inl e)
    then show ?thesis using m 1 by (simp add: seq_def)
  next
    case (Inr v)
    then have "keeps S (k v) R" using 1(2) assms(2) by blast
    then have "prefix S (stors (snd (k v s1))) \<and> (\<forall>w. fst (k v s1) = Inr w \<longrightarrow> R w)"
      using 1(1) by (simp add: keeps_def)
    then show ?thesis using m Inr by (simp add: seq_def)
  qed
qed

lemma keeps_weaken:
  assumes "keeps S m Q" "\<And>v. Q v \<Longrightarrow> Q' v"
  shows "keeps S m Q'"
  using assms by (simp add: keeps_def)

lemma keeps_case_prod:
  assumes "\<And>a b. keeps S (k a b) Q"
  shows "keeps S (case p of (a, b) \<Rightarrow> k a b) Q"
  using assms by (cases p) simp

lemma keeps_new_tensor: "keeps S (new_tensor xs sh hs) (\<lambda>t. length S \<le> stor t)"
  by (auto simp: keeps_def new_tensor_def prefix_length_le)

lemma keeps_ones_like: "keeps S (ones_like t) (\<lambda>b. length S \<le> stor b)"
  by (simp add: ones_like_def keeps_new_tensor)

lemma keeps_map_prog:
  assumes "\<And>x. keeps S (f x) Q"
  shows "keeps S (map_prog f xs) (\<lambda>vs. \<forall>v \<in> set vs. Q v)"
proof (induction xs)
  case Nil
  then show ?case by (simp add: keeps_ret)
next
  case (Cons x xs)
  show ?case
    unfolding map_prog.simps
    by (rule keeps_seq[OF assms], rule keeps_seq[OF Cons.IH], rule keeps_ret) simp
qed

lemma prefix_list_update:
  assumes "prefix S xs" "length S \<le> a"
  shows "prefix S (xs[a := v])"
proof -
  from assms(1) obtain ys where "xs = S @ ys" by (auto simp: prefix_def)
  then show ?thesis using assms(2) by (simp add: list_update_append)
qed

lemma keeps_copy_into:
  assumes "length S \<le> stor b"
  shows "keeps S (copy_into b vs) (\<lambda>_. True)"
  using assms by (auto simp: keeps_def copy_into_def throw_def ret_def prefix_list_update)

lemma keeps_receive_all:
  assumes "\<forall>b \<in> set bs. length S \<le> stor b"
  shows "keeps S (receive_all vals k bs) (\<lambda>_. True)"
  using assms
proof (induction bs arbitrary: k)
  case Nil
  then show ?case by (simp add: keeps_ret)
next
  case (Cons b bs)
  show ?case
    unfolding receive_all.simps
    by (rule keeps_seq[OF keeps_copy_into]) (use Cons in auto)
qed

lemma keeps_all_gather:
  assumes "\<forall>b \<in> set bs. length S \<le> stor b"
  shows "keeps S (all_gather pg peers bs t) (\<lambda>_. True)"
  unfolding keeps_def
proof (intro allI impI)
  fix s :: "'a world"
  assume p: "prefix S (stors s)"
  show "prefix S (stors (snd (all_gather pg peers bs t s))) \<and>
        (\<forall>v. fst (all_gather pg peers bs t s) = Inr v \<longrightarrow> True)"
  proof (cases pg)
    case (NotInitialized e)
    then show ?thesis using p by (simp add: all_gather_def throw_def)
  next
    case (Group w r)
    show ?thesis
    proof (cases "length bs = w")
      case True
      then show ?thesis
        using keeps_receive_all[OF assms, of "\<lambda>k. if k = r then tensor_data s t else peers k" 0]
          p Group by (simp add: all_gather_def keeps_def)
    next
      case False
      then show ?thesis using p Group by (simp add: all_gather_def throw_def)
    qed
  qed
qed

lemma keeps_pure:
  assumes "\<And>s. snd (m s) = s"
  shows "keeps S m (\<lambda>_. True)"
  using assms by (simp add: keeps_def)

lemma keeps_dist_get_world_size: "keeps S (dist_get_world_size pg) (\<lambda>_. True)"
  by (rule keeps_pure) (simp add: dist_get_world_size_def throw_def ret_def split: process_group.splits)

lemma keeps_dist_get_rank: "keeps S (dist_get_rank pg) (\<lambda>_. True)"
  by (rule keeps_pure) (simp add: dist_get_rank_def throw_def ret_def split: process_group.splits)

lemma keeps_get_world_size: "keeps S (get_world_size pg) (\<lambda>_. True)"
  by (rule keeps_pure)
    (simp add: get_world_size_def try_except_def dist_get_world_size_def throw_def ret_def
      split: process_group.splits)

lemma keeps_setitem: "keeps S (setitem xs i v) (\<lambda>_. True)"
  by (rule keeps_pure) (simp add: setitem_def throw_def ret_def)

lemma keeps_cat: "keeps S (cat ts) (\<lambda>_. True)"
  by (cases ts) (simp_all add: keeps_def cat_def throw_def new_tensor_def)

lemma keeps_ones_list:
  "keeps S (seq (dist_get_world_size pg) (\<lambda>w. map_prog (\<lambda>_. ones_like t) [0..<nat w]))
     (\<lambda>bs. \<forall>b \<in> set bs. length S \<le> stor b)"
  by (rule keeps_seq[OF keeps_dist_get_world_size]) (rule keeps_map_prog[OF keeps_ones_like])

lemma keeps_gathered_lists:
  "keeps S (gathered_lists pg pa pp anchors positives) (\<lambda>_. True)"
  unfolding gathered_lists_def
  apply (rule keeps_seq[OF keeps_ones_list])
  apply (rule keeps_seq[OF keeps_ones_list])
  apply (rule keeps_seq[OF keeps_all_gather], assumption)
  apply (rule keeps_seq[OF keeps_all_gather], assumption)
  apply (rule keeps_seq[where Q = "\<lambda>_. True"])
   apply (rule keeps_seq[OF keeps_dist_get_rank keeps_setitem])
  apply (rule keeps_seq[where Q = "\<lambda>_. True"])
   apply (rule keeps_seq[OF keeps_dist_get_rank keeps_setitem])
  apply (rule keeps_ret)
  apply simp
  done

lemma keeps_gatherer:
  "keeps S (all_gather_anchor_positive_pairs pg pa pp anchors positives) (\<lambda>_. True)"
  unfolding all_gather_anchor_positive_pairs_def
  apply (rule keeps_seq[OF keeps_get_world_size])
  apply (simp add: keeps_ret)
  apply (intro impI)
  apply (rule keeps_seq[OF keeps_gathered_lists])
  apply (rule keeps_case_prod)
  apply (rule keeps_seq[OF keeps_cat])
  apply (rule keeps_seq[OF keeps_cat])
  apply (rule keeps_ret)
  apply simp
  done

text \<open>
  C9. The gatherer writes to no storage that existed before the call, on any path: the
  receive buffers are new storages (\<open>keeps_ones_list\<close>), the collective writes through
  the buffers only (\<open>keeps_all_gather\<close>), the overwrite of the own-rank entry changes a
  list and no tensor, and \<^verbatim>\<open>torch.cat\<close> allocates its result. So the storages after the call
  are the storages before followed by new ones, and every tensor that existed before,
  both inputs in particular, holds its original values.
\<close>

theorem gatherer_leaves_inputs:
  "prefix (stors s) (stors (snd (all_gather_anchor_positive_pairs pg pa pp anchors positives s))) \<and>
   (\<forall>t. stor t < length (stors s) \<longrightarrow>
      tensor_data (snd (all_gather_anchor_positive_pairs pg pa pp anchors positives s)) t =
        tensor_data s t)"
proof -
  have "keeps (stors s) (all_gather_anchor_positive_pairs pg pa pp anchors positives) (\<lambda>_. True)"
    by (rule keeps_gatherer)
  then have p: "prefix (stors s)
      (stors (snd (all_gather_anchor_positive_pairs pg pa pp anchors positives s)))"
    by (simp add: keeps_def)
  then show ?thesis by (simp add: tensor_data_def read_cells_prefix)
qed

theorem gatherer_leaves_inputs_witness:
  "stor example_embedding < length (stors example_world) \<and>
   tensor_data
     (snd (all_gather_anchor_positive_pairs (Group 2 0) (\<lambda>k. replicate 12 5) (\<lambda>k. replicate 12 5)
        example_embedding example_embedding example_world)) example_embedding =
     tensor_data example_world example_embedding"
  using gatherer_leaves_inputs [of example_world "Group 2 0" "\<lambda>k. replicate 12 5"
      "\<lambda>k. replicate 12 5" example_embedding example_embedding]
  by (simp add: example_world_def example_embedding_def)

subsection \<open>Receive buffers, the collective and the concatenation\<close>

lemma ones_like_run:
  "ones_like t s =
     (Inr (fresh_buffer t (next_id s) (length (stors s))),
      s\<lparr>stors := stors s @ [replicate (numel t) 1], next_id := Suc (next_id s)\<rparr>)"
  by (simp add: ones_like_def new_tensor_def fresh_buffer_def)

lemma map_ones_run:
  "map_prog (\<lambda>_. ones_like t) xs s =
     (Inr (map (\<lambda>k. fresh_buffer t (next_id s + k) (length (stors s) + k)) [0..<length xs]),
      s\<lparr>stors := stors s @ replicate (length xs) (replicate (numel t) 1),
        next_id := next_id s + length xs\<rparr>)"
proof (induction xs arbitrary: s)
  case Nil
  then show ?case by (simp add: ret_def)
next
  case (Cons x xs)
  let ?s1 = "s\<lparr>stors := stors s @ [replicate (numel t) 1], next_id := Suc (next_id s)\<rparr>"
  have "map_prog (\<lambda>_. ones_like t) (x # xs) s =
      (Inr (fresh_buffer t (next_id s) (length (stors s)) #
            map (\<lambda>k. fresh_buffer t (next_id ?s1 + k) (length (stors ?s1) + k)) [0..<length xs]),
       ?s1\<lparr>stors := stors ?s1 @ replicate (length xs) (replicate (numel t) 1),
         next_id := next_id ?s1 + length xs\<rparr>)"
    by (simp add: seq_def ones_like_run Cons.IH ret_def)
  then show ?case by (simp add: map_upt_Suc del: upt_Suc)
qed

lemma write_cells_Cons:
  "write_cells (c # cs) (v # vs) st = write_cells cs vs (st[c := v])"
  by (simp add: write_cells_def)

lemma write_cells_range:
  "k + length vs \<le> length st \<Longrightarrow>
     write_cells [k..<k + length vs] vs st = take k st @ vs @ drop (k + length vs) st"
proof (induction vs arbitrary: k st)
  case Nil
  then show ?case by (simp add: write_cells_def)
next
  case (Cons v vs)
  have u: "[k..<k + length (v # vs)] = k # [Suc k..<Suc k + length vs]"
  proof -
    have "k < k + length (v # vs)" by simp
    from upt_conv_Cons[OF this] show ?thesis by (simp del: upt_Suc)
  qed
  have k: "k < length st" using Cons.prems by simp
  have "write_cells [k..<k + length (v # vs)] (v # vs) st =
        write_cells [Suc k..<Suc k + length vs] vs (st[k := v])"
    by (simp only: u write_cells_Cons)
  also have "\<dots> = take (Suc k) (st[k := v]) @ vs @ drop (Suc k + length vs) (st[k := v])"
    using Cons.prems by (intro Cons.IH) simp
  also have "take (Suc k) (st[k := v]) = take k st @ [v]"
    using k by (simp add: take_Suc_conv_app_nth)
  also have "drop (Suc k + length vs) (st[k := v]) = drop (Suc k + length vs) st"
    by simp
  finally show ?case by simp
qed

lemma write_cells_all:
  assumes "length st = length vs"
  shows "write_cells [0..<length vs] vs st = vs"
  using write_cells_range[of 0 vs st] assms by simp

lemma copy_into_buffer:
  assumes "stors s = pre @ m # rest" "stor b = length pre" "cells b = [0..<N]"
    and "length m = N" "length vs = N"
  shows "copy_into b vs s = (Inr (), s\<lparr>stors := pre @ vs # rest\<rparr>)"
proof -
  have "write_cells [0..<length vs] vs m = vs" using assms(4,5) by (intro write_cells_all) simp
  then show ?thesis using assms by (simp add: copy_into_def ret_def)
qed

lemma receive_all_run:
  assumes "stors s = pre @ mid @ post" "length mid = length bs" "\<forall>m \<in> set mid. length m = N"
    and "\<forall>k < length bs. stor (bs ! k) = length pre + k \<and> cells (bs ! k) = [0..<N]"
    and "\<forall>k < length bs. length (vals (k0 + k)) = N"
  shows "receive_all vals k0 bs s =
    (Inr (), s\<lparr>stors := pre @ map (\<lambda>k. vals (k0 + k)) [0..<length bs] @ post\<rparr>)"
  using assms
proof (induction bs arbitrary: s pre mid k0)
  case Nil
  then show ?case by (simp add: ret_def)
next
  case (Cons b bs)
  from Cons.prems(2) obtain m mid' where mid: "mid = m # mid'" by (cases mid) auto
  have b: "stor b = length pre" "cells b = [0..<N]" using Cons.prems(4) by auto
  have m: "length m = N" using Cons.prems(3) mid by simp
  have v: "length (vals k0) = N" using Cons.prems(5) by auto
  let ?s1 = "s\<lparr>stors := pre @ vals k0 # mid' @ post\<rparr>"
  have c: "copy_into b (vals k0) s = (Inr (), ?s1)"
    using copy_into_buffer[of s pre m "mid' @ post" b N "vals k0"] Cons.prems(1) mid b m v by simp
  have r: "receive_all vals (Suc k0) bs ?s1 =
      (Inr (), ?s1\<lparr>stors := (pre @ [vals k0]) @ map (\<lambda>k. vals (Suc k0 + k)) [0..<length bs] @ post\<rparr>)"
  proof (rule Cons.IH[of ?s1 "pre @ [vals k0]" mid' "Suc k0"])
    show "stors ?s1 = (pre @ [vals k0]) @ mid' @ post" by simp
    show "length mid' = length bs" using Cons.prems(2) mid by simp
    show "\<forall>m \<in> set mid'. length m = N" using Cons.prems(3) mid by simp
    show "\<forall>k < length bs. stor (bs ! k) = length (pre @ [vals k0]) + k \<and> cells (bs ! k) = [0..<N]"
    proof (intro allI impI)
      fix k assume "k < length bs"
      then have "Suc k < length (b # bs)" by simp
      from Cons.prems(4)[rule_format, OF this] show
        "stor (bs ! k) = length (pre @ [vals k0]) + k \<and> cells (bs ! k) = [0..<N]" by simp
    qed
    show "\<forall>k < length bs. length (vals (Suc k0 + k)) = N"
    proof (intro allI impI)
      fix k assume "k < length bs"
      then have "Suc k < length (b # bs)" by simp
      from Cons.prems(5)[rule_format, OF this] show "length (vals (Suc k0 + k)) = N" by simp
    qed
  qed
  show ?case
    unfolding receive_all.simps
    by (simp add: seq_def c r map_upt_Suc del: upt_Suc)
qed

lemma all_gather_run:
  assumes "stors s = pre @ mid @ post" "length mid = W" "\<forall>m \<in> set mid. length m = N"
    and "length bs = W"
    and "\<forall>k < W. stor (bs ! k) = length pre + k \<and> cells (bs ! k) = [0..<N]"
    and "length (tensor_data s t) = N" "\<forall>k < W. k \<noteq> r \<longrightarrow> length (peers k) = N"
  shows "all_gather (Group W r) peers bs t s =
    (Inr (), s\<lparr>stors := pre @ map (\<lambda>k. if k = r then tensor_data s t else peers k) [0..<W] @ post\<rparr>)"
proof -
  let ?vals = "\<lambda>k. if k = r then tensor_data s t else peers k"
  have "receive_all ?vals 0 bs s =
    (Inr (), s\<lparr>stors := pre @ map (\<lambda>k. ?vals (0 + k)) [0..<length bs] @ post\<rparr>)"
    using assms by (intro receive_all_run[of s pre mid post bs N]) auto
  then show ?thesis using assms(4) by (simp add: all_gather_def)
qed

lemma cat_run:
  assumes "ts = t # ts'" "\<forall>u \<in> set ts. shape u = B # R"
  shows "cat ts s =
    (Inr \<lparr>obj_id = next_id s, stor = length (stors s),
          cells = [0..<length (concat (map (tensor_data s) ts))],
          shape = (length ts * B) # R, hist = grad_of s ''CatBackward'' ts\<rparr>,
     s\<lparr>stors := stors s @ [concat (map (tensor_data s) ts)], next_id := Suc (next_id s)\<rparr>)"
proof -
  have "sum_list (map (\<lambda>u. hd (shape u)) ts) = length ts * B"
    using assms(2) by (induction ts) auto
  then show ?thesis using assms by (simp add: cat_def new_tensor_def)
qed

subsection \<open>The gatherer among at least two replicas\<close>

lemma read_fresh_buffer:
  assumes "st ! a = xs" "length xs = numel t"
  shows "read_cells st (fresh_buffer t i a) = xs"
proof -
  have "map ((!) xs) [0..<length xs] = xs" by (rule map_nth)
  then show ?thesis using assms by (simp add: read_cells_def fresh_buffer_def)
qed

lemma map_hist_update:
  assumes "r < W"
  shows "map hist ((map (\<lambda>k. fresh_buffer t (i + k) (a + k)) [0..<W])[r := x]) =
         map (\<lambda>k. if k = r then hist x else NoHist) [0..<W]"
  using assms by (intro nth_equalityI) (auto simp: nth_list_update fresh_buffer_def)

lemma some_history:
  assumes "r < W" "map hist ts = map (\<lambda>k. if k = r then h else NoHist) [0..<W]"
  shows "(\<exists>t \<in> set ts. hist t \<noteq> NoHist) \<longleftrightarrow> h \<noteq> NoHist"
proof -
  have "(\<exists>t \<in> set ts. hist t \<noteq> NoHist) \<longleftrightarrow> (\<exists>x \<in> set (map hist ts). x \<noteq> NoHist)" by auto
  also have "\<dots> \<longleftrightarrow> (\<exists>k < W. (if k = r then h else NoHist) \<noteq> NoHist)"
    unfolding assms(2) by auto
  also have "\<dots> \<longleftrightarrow> h \<noteq> NoHist" using assms(1) by auto
  finally show ?thesis .
qed

text \<open>One list of per-rank tensors after collective and overwrite, and its concatenation.\<close>

lemma gathered_data:
  fixes st :: "'a list list"
  assumes r: "r < W" and pre: "length pre = base" and own: "stor t < base"
    and len: "\<forall>k < W. length (vals k) = numel t"
    and st: "st = pre @ map vals [0..<W] @ post"
    and ts: "ts = (map (\<lambda>k. fresh_buffer t (i + k) (base + k)) [0..<W])[r := t]"
    and vr: "vals r = read_cells pre t"
  shows "map (read_cells st) ts = map vals [0..<W]"
proof (rule nth_equalityI)
  show "length (map (read_cells st) ts) = length (map vals [0..<W])" by (simp add: ts)
next
  fix k assume "k < length (map (read_cells st) ts)"
  then have k: "k < W" by (simp add: ts)
  show "map (read_cells st) ts ! k = map vals [0..<W] ! k"
  proof (cases "k = r")
    case True
    have "read_cells st t = read_cells pre t"
      unfolding st using own pre by (simp add: read_cells_append)
    then show ?thesis using True k vr by (simp add: ts)
  next
    case False
    have "st ! (base + k) = vals k" unfolding st using pre k by (simp add: nth_append)
    then have "read_cells st (fresh_buffer t (i + k) (base + k)) = vals k"
      using len k by (intro read_fresh_buffer) auto
    then show ?thesis using False k by (simp add: ts)
  qed
qed

lemma valid_tensor_data_length:
  "valid_tensor s t \<Longrightarrow> length (tensor_data s t) = numel t"
  by (simp add: valid_tensor_def tensor_data_def read_cells_def)

lemma gathered_lists_run:
  fixes s :: "'a::one world"
  assumes r: "r < W"
    and valid: "valid_tensor s anchors" "valid_tensor s positives"
    and peers: "\<forall>k < W. k \<noteq> r \<longrightarrow> length (pa k) = numel anchors \<and> length (pp k) = numel positives"
  defines "base \<equiv> length (stors s)"
  defines "va \<equiv> \<lambda>k. if k = r then tensor_data s anchors else pa k"
  defines "vp \<equiv> \<lambda>k. if k = r then tensor_data s positives else pp k"
  shows "gathered_lists (Group W r) pa pp anchors positives s =
     (Inr ((map (\<lambda>k. fresh_buffer anchors (next_id s + k) (base + k)) [0..<W])[r := anchors],
           (map (\<lambda>k. fresh_buffer positives (next_id s + W + k) (base + W + k)) [0..<W])[r := positives]),
      s\<lparr>stors := stors s @ map va [0..<W] @ map vp [0..<W], next_id := next_id s + 2 * W\<rparr>)"
proof -
  let ?pg = "Group W r"
  let ?oa = "replicate W (replicate (numel anchors) (1::'a))"
  let ?op = "replicate W (replicate (numel positives) (1::'a))"
  define al0 where "al0 = map (\<lambda>k. fresh_buffer anchors (next_id s + k) (base + k)) [0..<W]"
  define pl0 where "pl0 = map (\<lambda>k. fresh_buffer positives (next_id s + W + k) (base + W + k)) [0..<W]"
  define s1 where "s1 = s\<lparr>stors := stors s @ ?oa, next_id := next_id s + W\<rparr>"
  define s2 where "s2 = s\<lparr>stors := stors s @ ?oa @ ?op, next_id := next_id s + 2 * W\<rparr>"
  define s3 where "s3 = s\<lparr>stors := stors s @ map va [0..<W] @ ?op, next_id := next_id s + 2 * W\<rparr>"
  define s4 where "s4 = s\<lparr>stors := stors s @ map va [0..<W] @ map vp [0..<W], next_id := next_id s + 2 * W\<rparr>"
  have sa: "stor anchors < length (stors s)" and sp: "stor positives < length (stors s)"
    using valid by (simp_all add: valid_tensor_def)
  have e1: "seq (seq (dist_get_world_size ?pg) (\<lambda>w. map_prog (\<lambda>_. ones_like anchors) [0..<nat w])) k s
      = k al0 s1" for k :: "tensor list \<Rightarrow> ('a world, tensor list \<times> tensor list) prog"
    by (simp add: seq_def dist_get_world_size_def ret_def map_ones_run al0_def s1_def base_def)
  have e2: "seq (seq (dist_get_world_size ?pg) (\<lambda>w. map_prog (\<lambda>_. ones_like positives) [0..<nat w])) k s1
      = k pl0 s2" for k :: "tensor list \<Rightarrow> ('a world, tensor list \<times> tensor list) prog"
    by (simp add: seq_def dist_get_world_size_def ret_def map_ones_run pl0_def s1_def s2_def base_def
        add.assoc mult_2)
  have da: "tensor_data s2 anchors = tensor_data s anchors"
    using sa by (simp add: s2_def tensor_data_def read_cells_append)
  have "all_gather ?pg pa al0 anchors s2 =
      (Inr (), s2\<lparr>stors := stors s @ map (\<lambda>k. if k = r then tensor_data s2 anchors else pa k) [0..<W] @ ?op\<rparr>)"
  proof (rule all_gather_run[where mid = ?oa and N = "numel anchors"])
    show "stors s2 = stors s @ ?oa @ ?op" by (simp add: s2_def)
    show "length ?oa = W" by simp
    show "\<forall>m \<in> set ?oa. length m = numel anchors" by simp
    show "length al0 = W" by (simp add: al0_def)
    show "\<forall>k < W. stor (al0 ! k) = length (stors s) + k \<and> cells (al0 ! k) = [0..<numel anchors]"
      by (simp add: al0_def fresh_buffer_def base_def)
    show "length (tensor_data s2 anchors) = numel anchors"
      using da valid_tensor_data_length[OF valid(1)] by simp
    show "\<forall>k < W. k \<noteq> r \<longrightarrow> length (pa k) = numel anchors" using peers by simp
  qed
  then have "all_gather ?pg pa al0 anchors s2 =
      (Inr (), s2\<lparr>stors := stors s @ map va [0..<W] @ ?op\<rparr>)"
    by (simp only: da va_def)
  then have g3: "all_gather ?pg pa al0 anchors s2 = (Inr (), s3)"
    by (simp add: s3_def s2_def)
  have e3: "seq (all_gather ?pg pa al0 anchors) k s2 = k () s3"
    for k :: "unit \<Rightarrow> ('a world, tensor list \<times> tensor list) prog"
    by (simp add: seq_def g3)
  have dp: "tensor_data s3 positives = tensor_data s positives"
    using sp by (simp add: s3_def tensor_data_def read_cells_append)
  have "all_gather ?pg pp pl0 positives s3 =
      (Inr (), s3\<lparr>stors := (stors s @ map va [0..<W]) @
         map (\<lambda>k. if k = r then tensor_data s3 positives else pp k) [0..<W] @ []\<rparr>)"
  proof (rule all_gather_run[where mid = ?op and N = "numel positives"])
    show "stors s3 = (stors s @ map va [0..<W]) @ ?op @ []" by (simp add: s3_def)
    show "length ?op = W" by simp
    show "\<forall>m \<in> set ?op. length m = numel positives" by simp
    show "length pl0 = W" by (simp add: pl0_def)
    show "\<forall>k < W. stor (pl0 ! k) = length (stors s @ map va [0..<W]) + k \<and>
        cells (pl0 ! k) = [0..<numel positives]"
      by (simp add: pl0_def fresh_buffer_def base_def)
    show "length (tensor_data s3 positives) = numel positives"
      using dp valid_tensor_data_length[OF valid(2)] by simp
    show "\<forall>k < W. k \<noteq> r \<longrightarrow> length (pp k) = numel positives" using peers by simp
  qed
  then have "all_gather ?pg pp pl0 positives s3 =
      (Inr (), s3\<lparr>stors := (stors s @ map va [0..<W]) @ map vp [0..<W] @ []\<rparr>)"
    by (simp only: dp vp_def)
  then have g4: "all_gather ?pg pp pl0 positives s3 = (Inr (), s4)"
    by (simp add: s3_def s4_def)
  have e4: "seq (all_gather ?pg pp pl0 positives) k s3 = k () s4"
    for k :: "unit \<Rightarrow> ('a world, tensor list \<times> tensor list) prog"
    by (simp add: seq_def g4)
  have e5: "seq (seq (dist_get_rank ?pg) (\<lambda>r. setitem al0 r anchors)) k s4 = k (al0[r := anchors]) s4"
    for k :: "tensor list \<Rightarrow> ('a world, tensor list \<times> tensor list) prog"
    using r by (simp add: seq_def dist_get_rank_def setitem_def ret_def al0_def)
  have e6: "seq (seq (dist_get_rank ?pg) (\<lambda>r. setitem pl0 r positives)) k s4 = k (pl0[r := positives]) s4"
    for k :: "tensor list \<Rightarrow> ('a world, tensor list \<times> tensor list) prog"
    using r by (simp add: seq_def dist_get_rank_def setitem_def ret_def pl0_def)
  have "gathered_lists ?pg pa pp anchors positives s = (Inr (al0[r := anchors], pl0[r := positives]), s4)"
    unfolding gathered_lists_def by (simp only: e1 e2 e3 e4 e5 e6 ret_def)
  then show ?thesis by (simp only: al0_def pl0_def s4_def)
qed

lemma read_cells_last_storage:
  assumes "stor t = length pre" "cells t = [0..<length D]"
  shows "read_cells (pre @ D # post) t = D"
proof -
  have "map ((!) D) [0..<length D] = D" by (rule map_nth)
  then show ?thesis using assms by (simp add: read_cells_def)
qed

text \<open>
  C1. In a group of \<open>W \<ge> 2\<close> replicas the gatherer returns. The two lists it concatenates
  have one tensor per rank, in rank order: the entry at this replica's own rank is the
  input tensor object itself, with its history; every other entry is a buffer without
  history that holds what that rank contributed. Each result is a new tensor of shape
  \<open>(W \<times> B) \<times> \<dots>\<close> whose data is the concatenation of the entries' data in rank order,
  and whose history, when autograd records and the input has one, is a concatenation
  node with the input's history at the own rank and none at the others.
\<close>

theorem gatherer_concatenates_in_rank_order:
  fixes s :: "'a::one world"
  assumes W: "2 \<le> W" and r: "r < W"
    and valid: "valid_tensor s anchors" "valid_tensor s positives"
    and sh: "shape anchors = Ba # Ra" "shape positives = Bp # Rp"
    and peers: "\<forall>k < W. k \<noteq> r \<longrightarrow> length (pa k) = numel anchors \<and> length (pp k) = numel positives"
  shows "\<exists>al pl s1 a' p' s'.
     gathered_lists (Group W r) pa pp anchors positives s = (Inr (al, pl), s1) \<and>
     length al = W \<and> length pl = W \<and> al ! r = anchors \<and> pl ! r = positives \<and>
     (\<forall>k < W. k \<noteq> r \<longrightarrow>
        tensor_data s1 (al ! k) = pa k \<and> tensor_data s1 (pl ! k) = pp k \<and>
        hist (al ! k) = NoHist \<and> hist (pl ! k) = NoHist) \<and>
     all_gather_anchor_positive_pairs (Group W r) pa pp anchors positives s = (Inr (a', p'), s') \<and>
     shape a' = (W * Ba) # Ra \<and> shape p' = (W * Bp) # Rp \<and>
     tensor_data s' a' = concat (map (tensor_data s1) al) \<and>
     tensor_data s' p' = concat (map (tensor_data s1) pl) \<and>
     tensor_data s' a' = concat (map (\<lambda>k. if k = r then tensor_data s anchors else pa k) [0..<W]) \<and>
     tensor_data s' p' = concat (map (\<lambda>k. if k = r then tensor_data s positives else pp k) [0..<W]) \<and>
     hist a' = (if grad_enabled s \<and> hist anchors \<noteq> NoHist
                then Fn ''CatBackward'' (map (\<lambda>k. if k = r then hist anchors else NoHist) [0..<W])
                else NoHist) \<and>
     hist p' = (if grad_enabled s \<and> hist positives \<noteq> NoHist
                then Fn ''CatBackward'' (map (\<lambda>k. if k = r then hist positives else NoHist) [0..<W])
                else NoHist)"
proof -
  define base where "base = length (stors s)"
  define va where "va = (\<lambda>k. if k = r then tensor_data s anchors else pa k)"
  define vp where "vp = (\<lambda>k. if k = r then tensor_data s positives else pp k)"
  define al where "al = (map (\<lambda>k. fresh_buffer anchors (next_id s + k) (base + k)) [0..<W])[r := anchors]"
  define pl where
    "pl = (map (\<lambda>k. fresh_buffer positives (next_id s + W + k) (base + W + k)) [0..<W])[r := positives]"
  define s1 where
    "s1 = s\<lparr>stors := stors s @ map va [0..<W] @ map vp [0..<W], next_id := next_id s + 2 * W\<rparr>"
  have gl: "gathered_lists (Group W r) pa pp anchors positives s = (Inr (al, pl), s1)"
    using gathered_lists_run[OF r valid peers]
    by (simp only: al_def pl_def s1_def va_def vp_def base_def)
  have sa: "stor anchors < base" and sp: "stor positives < base"
    using valid by (simp_all add: valid_tensor_def base_def)
  have st1: "stors s1 = stors s @ map va [0..<W] @ map vp [0..<W]" by (simp add: s1_def)
  have ge: "grad_enabled s1 = grad_enabled s" by (simp add: s1_def)
  have td1: "tensor_data s1 = read_cells (stors s1)" by (rule ext) (simp add: tensor_data_def)
  have la: "length al = W" "length pl = W" by (simp_all add: al_def pl_def)
  have own: "al ! r = anchors" "pl ! r = positives" using r by (simp_all add: al_def pl_def)
  have lva: "\<forall>k < W. length (va k) = numel anchors"
    using peers valid_tensor_data_length[OF valid(1)] by (simp add: va_def)
  have lvp: "\<forall>k < W. length (vp k) = numel positives"
    using peers valid_tensor_data_length[OF valid(2)] by (simp add: vp_def)
  have ma: "map (tensor_data s1) al = map va [0..<W]"
    unfolding td1
  proof (rule gathered_data[OF r _ sa lva st1, of _ "next_id s"])
    show "length (stors s) = base" by (simp add: base_def)
    show "al = (map (\<lambda>k. fresh_buffer anchors (next_id s + k) (base + k)) [0..<W])[r := anchors]"
      by (rule al_def)
    show "va r = read_cells (stors s) anchors" by (simp add: va_def tensor_data_def)
  qed
  have mp: "map (tensor_data s1) pl = map vp [0..<W]"
    unfolding td1
  proof (rule gathered_data[OF r, where pre = "stors s @ map va [0..<W]" and post = "[]"
        and base = "base + W" and i = "next_id s + W" and t = positives])
    show "length (stors s @ map va [0..<W]) = base + W" by (simp add: base_def)
    show "stor positives < base + W" using sp by simp
    show "\<forall>k < W. length (vp k) = numel positives" by (rule lvp)
    show "stors s1 = (stors s @ map va [0..<W]) @ map vp [0..<W] @ []" by (simp add: st1)
    show "pl = (map (\<lambda>k. fresh_buffer positives (next_id s + W + k) (base + W + k)) [0..<W])[r := positives]"
      by (rule pl_def)
    show "vp r = read_cells (stors s @ map va [0..<W]) positives"
      using sp by (simp add: vp_def tensor_data_def read_cells_append base_def)
  qed
  have others: "\<forall>k < W. k \<noteq> r \<longrightarrow>
        tensor_data s1 (al ! k) = pa k \<and> tensor_data s1 (pl ! k) = pp k \<and>
        hist (al ! k) = NoHist \<and> hist (pl ! k) = NoHist"
  proof (intro allI impI)
    fix k assume k: "k < W" "k \<noteq> r"
    have "map (tensor_data s1) al ! k = map va [0..<W] ! k" by (simp only: ma)
    then have 1: "tensor_data s1 (al ! k) = pa k" using k la by (simp add: va_def)
    have "map (tensor_data s1) pl ! k = map vp [0..<W] ! k" by (simp only: mp)
    then have 2: "tensor_data s1 (pl ! k) = pp k" using k la by (simp add: vp_def)
    have 3: "hist (al ! k) = NoHist" "hist (pl ! k) = NoHist"
      using k by (simp_all add: al_def pl_def fresh_buffer_def)
    show "tensor_data s1 (al ! k) = pa k \<and> tensor_data s1 (pl ! k) = pp k \<and>
        hist (al ! k) = NoHist \<and> hist (pl ! k) = NoHist" using 1 2 3 by simp
  qed
  have sha: "\<forall>u \<in> set al. shape u = Ba # Ra"
  proof
    fix u assume "u \<in> set al"
    then have "u = anchors \<or> u \<in> set (map (\<lambda>k. fresh_buffer anchors (next_id s + k) (base + k)) [0..<W])"
      unfolding al_def using set_update_subset_insert by fastforce
    then show "shape u = Ba # Ra" using sh(1) by (auto simp: fresh_buffer_def)
  qed
  have shp: "\<forall>u \<in> set pl. shape u = Bp # Rp"
  proof
    fix u assume "u \<in> set pl"
    then have "u = positives \<or>
        u \<in> set (map (\<lambda>k. fresh_buffer positives (next_id s + W + k) (base + W + k)) [0..<W])"
      unfolding pl_def using set_update_subset_insert by fastforce
    then show "shape u = Bp # Rp" using sh(2) by (auto simp: fresh_buffer_def)
  qed
  have stp: "\<forall>u \<in> set pl. stor u < length (stors s1)"
  proof
    fix u assume "u \<in> set pl"
    then have "u = positives \<or>
        u \<in> set (map (\<lambda>k. fresh_buffer positives (next_id s + W + k) (base + W + k)) [0..<W])"
      unfolding pl_def using set_update_subset_insert by fastforce
    then show "stor u < length (stors s1)" using sp by (auto simp: fresh_buffer_def st1 base_def)
  qed
  obtain ha al' where al: "al = ha # al'" using la(1) W by (cases al) auto
  obtain hp pl' where pl: "pl = hp # pl'" using la(2) W by (cases pl) auto
  define Da where "Da = concat (map (tensor_data s1) al)"
  define a' where "a' = \<lparr>obj_id = next_id s1, stor = length (stors s1), cells = [0..<length Da],
      shape = (length al * Ba) # Ra, hist = grad_of s1 ''CatBackward'' al\<rparr>"
  define s2 where "s2 = s1\<lparr>stors := stors s1 @ [Da], next_id := Suc (next_id s1)\<rparr>"
  have c1: "cat al s1 = (Inr a', s2)"
    using cat_run[OF al sha, of s1] by (simp only: Da_def a'_def s2_def)
  have "map (tensor_data s2) pl = map (tensor_data s1) pl"
    using stp by (intro map_cong refl) (simp add: s2_def tensor_data_def read_cells_append)
  then have same: "concat (map (tensor_data s2) pl) = concat (map (tensor_data s1) pl)"
    by (rule arg_cong[where f = concat])
  define Dp where "Dp = concat (map (tensor_data s1) pl)"
  define p' where "p' = \<lparr>obj_id = next_id s2, stor = length (stors s2), cells = [0..<length Dp],
      shape = (length pl * Bp) # Rp, hist = grad_of s2 ''CatBackward'' pl\<rparr>"
  define s' where "s' = s2\<lparr>stors := stors s2 @ [Dp], next_id := Suc (next_id s2)\<rparr>"
  have c2: "cat pl s2 = (Inr p', s')"
    using cat_run[OF pl shp, of s2] unfolding same by (simp only: Dp_def p'_def s'_def)
  have gw: "get_world_size (Group W r) s = (Inr (int W), s)" by (rule get_world_size_group)
  have run: "all_gather_anchor_positive_pairs (Group W r) pa pp anchors positives s = (Inr (a', p'), s')"
    unfolding all_gather_anchor_positive_pairs_def using W
    by (simp add: seq_def gw gl c1 c2 ret_def)
  have st': "stors s' = stors s1 @ [Da, Dp]" by (simp add: s'_def s2_def)
  have data_a: "tensor_data s' a' = Da"
    unfolding tensor_data_def st'
    by (rule read_cells_last_storage) (simp_all add: a'_def)
  have data_p: "tensor_data s' p' = Dp"
  proof -
    have "read_cells ((stors s1 @ [Da]) @ Dp # []) p' = Dp"
      by (rule read_cells_last_storage) (simp_all add: p'_def s2_def)
    then show ?thesis by (simp add: tensor_data_def st')
  qed
  have ha: "map hist al = map (\<lambda>k. if k = r then hist anchors else NoHist) [0..<W]"
    unfolding al_def by (rule map_hist_update[OF r])
  have hp: "map hist pl = map (\<lambda>k. if k = r then hist positives else NoHist) [0..<W]"
    unfolding pl_def by (rule map_hist_update[OF r])
  have hist_a: "hist a' = (if grad_enabled s \<and> hist anchors \<noteq> NoHist
                then Fn ''CatBackward'' (map (\<lambda>k. if k = r then hist anchors else NoHist) [0..<W])
                else NoHist)"
    using some_history[OF r ha] by (simp add: a'_def grad_of_def ge ha)
  have hist_p: "hist p' = (if grad_enabled s \<and> hist positives \<noteq> NoHist
                then Fn ''CatBackward'' (map (\<lambda>k. if k = r then hist positives else NoHist) [0..<W])
                else NoHist)"
    using some_history[OF r hp] by (simp add: p'_def grad_of_def ge hp s2_def)
  have shape_a: "shape a' = (W * Ba) # Ra" by (simp add: a'_def la)
  have shape_p: "shape p' = (W * Bp) # Rp" by (simp add: p'_def la)
  have data_a2: "tensor_data s' a' =
      concat (map (\<lambda>k. if k = r then tensor_data s anchors else pa k) [0..<W])"
    using data_a by (simp add: Da_def ma va_def)
  have data_p2: "tensor_data s' p' =
      concat (map (\<lambda>k. if k = r then tensor_data s positives else pp k) [0..<W])"
    using data_p by (simp add: Dp_def mp vp_def)
  have data_a1: "tensor_data s' a' = concat (map (tensor_data s1) al)" using data_a by (simp add: Da_def)
  have data_p1: "tensor_data s' p' = concat (map (tensor_data s1) pl)" using data_p by (simp add: Dp_def)
  show ?thesis
    apply (rule exI[of _ al], rule exI[of _ pl], rule exI[of _ s1])
    apply (rule exI[of _ a'], rule exI[of _ p'], rule exI[of _ s'])
    apply (intro conjI)
    apply (rule gl la own others run shape_a shape_p data_a1 data_p1 data_a2 data_p2 hist_a hist_p)+
    done
qed

theorem gatherer_concatenates_in_rank_order_witness:
  "valid_tensor example_world example_embedding \<and> shape example_embedding = 3 # [4] \<and>
   length (replicate 12 (5::int)) = numel example_embedding \<and>
   (\<exists>al pl s1 a' p' s'.
     gathered_lists (Group 2 0) (\<lambda>k. replicate 12 (5::int)) (\<lambda>k. replicate 12 (5::int)) example_embedding example_embedding example_world = (Inr (al, pl), s1) \<and>
     length al = 2 \<and> length pl = 2 \<and> al ! 0 = example_embedding \<and> pl ! 0 = example_embedding \<and>
     (\<forall>k < 2. k \<noteq> 0 \<longrightarrow>
        tensor_data s1 (al ! k) = (\<lambda>k. replicate 12 (5::int)) k \<and> tensor_data s1 (pl ! k) = (\<lambda>k. replicate 12 (5::int)) k \<and>
        hist (al ! k) = NoHist \<and> hist (pl ! k) = NoHist) \<and>
     all_gather_anchor_positive_pairs (Group 2 0) (\<lambda>k. replicate 12 (5::int)) (\<lambda>k. replicate 12 (5::int)) example_embedding example_embedding example_world = (Inr (a', p'), s') \<and>
     shape a' = (2 * 3) # [4] \<and> shape p' = (2 * 3) # [4] \<and>
     tensor_data s' a' = concat (map (tensor_data s1) al) \<and>
     tensor_data s' p' = concat (map (tensor_data s1) pl) \<and>
     tensor_data s' a' = concat (map (\<lambda>k. if k = 0 then tensor_data example_world example_embedding else (\<lambda>k. replicate 12 (5::int)) k) [0..<2]) \<and>
     tensor_data s' p' = concat (map (\<lambda>k. if k = 0 then tensor_data example_world example_embedding else (\<lambda>k. replicate 12 (5::int)) k) [0..<2]) \<and>
     hist a' = (if grad_enabled example_world \<and> hist example_embedding \<noteq> NoHist
                then Fn ''CatBackward'' (map (\<lambda>k. if k = 0 then hist example_embedding else NoHist) [0..<2])
                else NoHist) \<and>
     hist p' = (if grad_enabled example_world \<and> hist example_embedding \<noteq> NoHist
                then Fn ''CatBackward'' (map (\<lambda>k. if k = 0 then hist example_embedding else NoHist) [0..<2])
                else NoHist))"
proof -
  have v: "valid_tensor example_world example_embedding"
    by (simp add: valid_tensor_def example_world_def example_embedding_def numel_def)
  have sh: "shape example_embedding = 3 # [4]" by (simp add: example_embedding_def)
  have n: "numel example_embedding = 12" by (simp add: numel_def example_embedding_def)
  have peers: "\<forall>k < 2. k \<noteq> 0 \<longrightarrow>
      length ((\<lambda>k. replicate 12 (5::int)) k) = numel example_embedding \<and>
      length ((\<lambda>k. replicate 12 (5::int)) k) = numel example_embedding"
    by (simp add: n)
  have W: "(2::nat) \<le> 2" and r: "(0::nat) < 2" by simp_all
  have p: "length (replicate 12 (5::int)) = numel example_embedding"
    by (simp add: n)
  show ?thesis
    by (intro conjI v sh p
        gatherer_concatenates_in_rank_order [where W = 2 and r = 0 and s = example_world
          and anchors = example_embedding and positives = example_embedding
          and Ba = 3 and Ra = "[4]" and Bp = 3 and Rp = "[4]"
          and pa = "\<lambda>k. replicate 12 (5::int)" and pp = "\<lambda>k. replicate 12 (5::int)",
          OF W r v v sh sh peers])
qed

end
